theory Spec2Isabelle
  imports Main "HOL-Library.Multiset"
begin

section \<open>Data model of the chord-spelling worker\<close>

text \<open>
  Strings are lists of characters; every string operation the worker uses
  (\<^verbatim>\<open>+\<close>, \<^verbatim>\<open>startsWith\<close>, \<^verbatim>\<open>slice\<close>, \<^verbatim>\<open>length\<close>, \<^verbatim>\<open>includes\<close>, a global single-character
  \<^verbatim>\<open>replace\<close>) works code unit by code unit, so it is the corresponding list operation.

  A \<^verbatim>\<open>Record<string, string>\<close> is modelled by the list of its own properties in the order
  in which they were inserted (for a parsed JSON object, the order of the document); an
  optional field that is absent is \<open>None\<close>. The worker reads such an object only through
  \<^verbatim>\<open>Object.entries\<close> and \<^verbatim>\<open>Object.keys(..).length\<close>.
\<close>

type_synonym entries = "(string \<times> string) list"

record ChordData =
  initials :: "entries option"
  vowels :: "entries option"
  finals :: "entries option"
  suffix :: "entries option"
  suffixes :: "entries option"

text \<open>\<^verbatim>\<open>type Strokes = [string, string, string, string]\<close>\<close>

type_synonym Strokes = "string \<times> string \<times> string \<times> string"

text \<open>A chord as the generators yield it: \<^verbatim>\<open>[out, strokes]\<close>. A spelling (a "way") is a
  list of them.\<close>

type_synonym chord = "string \<times> Strokes"
type_synonym spelling = "chord list"

text \<open>
  The component tables: the array \<^verbatim>\<open>[initials, vowels, finals, suffixes]\<close> that
  \<^verbatim>\<open>buildComponents\<close> returns and \<^verbatim>\<open>allChordOutputs\<close> destructures positionally.
\<close>

type_synonym components = "entries \<times> entries \<times> entries \<times> entries"

text \<open>The own properties of the memo object: \<^verbatim>\<open>Record<string, [string, Strokes][][]>\<close>.\<close>

type_synonym memo = "string \<rightharpoonup> spelling list"

text \<open>The errors of the worker: the \<^verbatim>\<open>TypeError\<close> of iterating a value that is not iterable,
  and the failure to load a table (\<^verbatim>\<open>fetch\<close> rejects, the response is not \<^verbatim>\<open>ok\<close>, or its body
  does not parse).\<close>

datatype error = TypeError | LoadError

section \<open>Literal fragments\<close>

definition isLiteral :: "string \<Rightarrow> bool" where
  "isLiteral s =
     (if s = [] then True
      else CHR ''{'' \<notin> set s \<and> CHR ''}'' \<notin> set s \<and> CHR ''|'' \<notin> set s)"

definition literalPart :: "string \<Rightarrow> string" where
  "literalPart s = (if isLiteral s then s else [])"

section \<open>Component Table Builder\<close>

text \<open>
  \<^verbatim>\<open>Object.entries\<close> enumerates the own properties of an object with the keys that are
  array indices first, in ascending numeric order, and then the other keys in the order of
  their insertion. A key is an array index when it is the canonical decimal form (no sign,
  no leading zero) of an integer from 0 to \<open>2\<^sup>3\<^sup>2 - 2\<close>.
\<close>

definition isDigit :: "char \<Rightarrow> bool" where
  "isDigit c = (48 \<le> (of_char c :: int) \<and> (of_char c :: int) \<le> 57)"

definition decimalValue :: "string \<Rightarrow> int" where
  "decimalValue s = foldl (\<lambda>n c. 10 * n + (of_char c - 48)) 0 s"

definition isArrayIndex :: "string \<Rightarrow> bool" where
  "isArrayIndex s =
     (s \<noteq> [] \<and> list_all isDigit s \<and> (hd s \<noteq> CHR ''0'' \<or> s = ''0'')
      \<and> decimalValue s \<le> 4294967294)"

definition objectEntries :: "entries \<Rightarrow> entries" where
  "objectEntries props =
     sort_key (\<lambda>(k, v). decimalValue k) (filter (\<lambda>(k, v). isArrayIndex k) props)
     @ filter (\<lambda>(k, v). \<not> isArrayIndex k) props"

text \<open>\<^verbatim>\<open>Object.entries(m ?? {})\<close>\<close>

definition entriesOf :: "entries option \<Rightarrow> entries" where
  "entriesOf m = objectEntries (case m of None \<Rightarrow> [] | Some props \<Rightarrow> props)"

text \<open>\<^verbatim>\<open>items.some(([k]) => k === "")\<close>\<close>

definition hasEmptyKey :: "entries \<Rightarrow> bool" where
  "hasEmptyKey items = list_ex (\<lambda>(k, v). k = []) items"

definition withEmpty :: "entries option \<Rightarrow> entries" where
  "withEmpty m =
     (let items = entriesOf m
      in if \<not> hasEmptyKey items then ([], []) # items else items)"

definition buildComponents :: "ChordData \<Rightarrow> components" where
  "buildComponents data =
     (let suffixMap =
            (case suffix data of
               None \<Rightarrow> suffixes data
             | Some es \<Rightarrow> if length es \<noteq> 0 then suffix data else suffixes data);
          sfx = entriesOf suffixMap;
          sfx' = (if \<not> hasEmptyKey sfx then ([], []) # sfx else sfx)
      in (withEmpty (initials data),
          withEmpty (vowels data),
          withEmpty (finals data),
          sfx'))"

section \<open>Chord Enumerator\<close>

text \<open>The four nested \<^verbatim>\<open>for\<close> loops of the generator, in their order.\<close>

fun allChordOutputs :: "components \<Rightarrow> chord list" where
  "allChordOutputs (initialsL, vowelsL, finalsL, suffixesL) =
     concat (map (\<lambda>(iStroke, iVal).
       concat (map (\<lambda>(vStroke, vVal).
         concat (map (\<lambda>(fStroke, fVal).
           map (\<lambda>(sStroke, sVal).
                 (literalPart iVal @ literalPart vVal @ literalPart fVal @ literalPart sVal,
                  (iStroke, vStroke, fStroke, sStroke)))
               suffixesL)
           finalsL))
         vowelsL))
       initialsL)"

section \<open>Chord display\<close>

text \<open>
  The literal the worker falls back to for an empty chord. In the worker's source it is the
  three characters U+00E2, U+02C6, U+2026 (the UTF-8 bytes of the empty-set sign U+2205
  read as Windows-1252); written here as the UTF-8 bytes of these three characters.
\<close>

definition emptyChordSign :: string where
  "emptyChordSign = [CHR 0xC3, CHR 0xA2, CHR 0xCB, CHR 0x86, CHR 0xE2, CHR 0x80, CHR 0xA6]"

text \<open>\<^verbatim>\<open>raw.replace(/\|/g, "&")\<close>\<close>

definition replaceBars :: "string \<Rightarrow> string" where
  "replaceBars raw = map (\<lambda>c. if c = CHR ''|'' then CHR ''&'' else c) raw"

text \<open>\<^verbatim>\<open>s.startsWith(p)\<close>\<close>

definition startsWith :: "string \<Rightarrow> string \<Rightarrow> bool" where
  "startsWith s p = (take (length p) s = p)"

fun chordRepr :: "Strokes \<Rightarrow> string" where
  "chordRepr (i, v, f, s) =
     (let fDisplay =
            (if f \<noteq> [] \<and> startsWith f ''-'' \<and> i = [] \<and> v = [] then f
             else if startsWith f ''-'' then drop 1 f
             else f);
          joined = i @ v @ fDisplay @ s;
          raw = (if joined = [] then emptyChordSign else joined)
      in replaceBars raw)"

section \<open>Prefix Matcher\<close>

text \<open>
  \<^verbatim>\<open>Array.prototype.sort(cmp)\<close> is a stable sort: an element goes before another when the
  comparator is negative, and elements that compare equal keep their order. It is modelled
  by insertion from the right, each element going in front of the first element it does not
  have to follow.
\<close>

fun insertBy :: "('a \<Rightarrow> 'a \<Rightarrow> int) \<Rightarrow> 'a \<Rightarrow> 'a list \<Rightarrow> 'a list" where
  "insertBy cmp x [] = [x]"
| "insertBy cmp x (y # ys) = (if cmp x y \<le> 0 then x # y # ys else y # insertBy cmp x ys)"

definition sortBy :: "('a \<Rightarrow> 'a \<Rightarrow> int) \<Rightarrow> 'a list \<Rightarrow> 'a list" where
  "sortBy cmp xs = foldr (insertBy cmp) xs []"

text \<open>\<^verbatim>\<open>([a], [b]) => b.length - a.length\<close>\<close>

definition byLengthDesc :: "chord \<Rightarrow> chord \<Rightarrow> int" where
  "byLengthDesc = (\<lambda>(a, _) (b, _). int (length b) - int (length a))"

text \<open>\<^verbatim>\<open>out && target.startsWith(out)\<close>\<close>

definition isPrefixChord :: "string \<Rightarrow> chord \<Rightarrow> bool" where
  "isPrefixChord target = (\<lambda>(out, strokes). out \<noteq> [] \<and> startsWith target out)"

definition getPrefixChords :: "string \<Rightarrow> components \<Rightarrow> chord list" where
  "getPrefixChords target components =
     sortBy byLengthDesc (filter (isPrefixChord target) (allChordOutputs components))"

section \<open>Spelling Search\<close>

text \<open>
  The memo is a plain object (\<^verbatim>\<open>{}\<close>), and \<^verbatim>\<open>target in memo\<close> also holds for a property
  the object inherits from \<^verbatim>\<open>Object.prototype\<close>. For such a target that is not an own
  property, \<^verbatim>\<open>memo[target]\<close> is the inherited function or object, which \<^verbatim>\<open>for ... of\<close>
  cannot iterate: the generator throws a \<^verbatim>\<open>TypeError\<close>.
\<close>

definition objectPrototypeKeys :: "string list" where
  "objectPrototypeKeys =
     [''constructor'', ''__defineGetter__'', ''__defineSetter__'', ''hasOwnProperty'',
      ''__lookupGetter__'', ''__lookupSetter__'', ''isPrototypeOf'', ''propertyIsEnumerable'',
      ''toString'', ''valueOf'', ''__proto__'', ''toLocaleString'']"

text \<open>\<^verbatim>\<open>target in memo\<close>\<close>

definition inMemo :: "string \<Rightarrow> memo \<Rightarrow> bool" where
  "inMemo target memo = (memo target \<noteq> None \<or> target \<in> set objectPrototypeKeys)"

lemma insertBy_set: "set (insertBy cmp x xs) = insert x (set xs)"
  by (induction xs) auto

lemma sortBy_set: "set (sortBy cmp xs) = set xs"
  by (induction xs) (auto simp: sortBy_def insertBy_set)

lemma getPrefixChords_set:
  "set (getPrefixChords target components) =
     {c \<in> set (allChordOutputs components). isPrefixChord target c}"
  by (auto simp: getPrefixChords_def sortBy_set)

lemma getPrefixChords_shorter:
  assumes "(out, strokes) \<in> set (getPrefixChords target components)"
  shows "length (drop (length out) target) < length target"
proof -
  from assms have "out \<noteq> []" and "take (length out) target = out"
    by (auto simp: getPrefixChords_set isPrefixChord_def startsWith_def)
  then have "target \<noteq> []" by auto
  with \<open>out \<noteq> []\<close> show ?thesis by simp
qed

text \<open>
  A run of the generator to its end is the triple of: the spellings it yields, in order;
  the own properties of the memo afterwards; and the error it ends with, if it throws.
  The inner generators are always driven to their end by the \<^verbatim>\<open>for ... of\<close> of the caller,
  and every spelling an inner generator yields is pushed to \<^verbatim>\<open>ways\<close> and yielded by the
  caller before the inner generator is resumed, so an error thrown inside leaves the
  spellings yielded so far in place, skips the rest of the chord list and skips
  \<^verbatim>\<open>memo[target] = ways\<close> in every enclosing call.
\<close>

function findSpellingsGenerator ::
  "string \<Rightarrow> components \<Rightarrow> memo \<Rightarrow> spelling list \<times> memo \<times> error option" where
  "findSpellingsGenerator target components memo =
     (if target = [] then ([[]], memo([] \<mapsto> [[]]), None)
      else if inMemo target memo then
        (case memo target of
           Some ways \<Rightarrow> (ways, memo, None)
         | None \<Rightarrow> ([], memo, Some TypeError))
      else
        (let chordList = getPrefixChords target components;
             (ways, memo', thrown) =
               fold (\<lambda>(out, strokes) (ways, m, thrown).
                       (case thrown of
                          Some e \<Rightarrow> (ways, m, thrown)
                        | None \<Rightarrow>
                           (let rest = drop (length out) target;
                                (restWays, m', thrown') = findSpellingsGenerator rest components m
                            in (ways @ map (\<lambda>restWay. (out, strokes) # restWay) restWays,
                                m', thrown'))))
                    chordList ([], memo, None)
         in (case thrown of
               None \<Rightarrow> (ways, memo'(target \<mapsto> ways), None)
             | Some e \<Rightarrow> (ways, memo', Some e))))"
  by pat_completeness auto
termination
  by (relation "measure (\<lambda>(target, components, memo). length target)")
     (auto dest: getPrefixChords_shorter)

declare findSpellingsGenerator.simps [simp del]

text \<open>One turn of the loop over the chord list, as a function of its own.\<close>

definition branchStep ::
  "string \<Rightarrow> components \<Rightarrow> chord \<Rightarrow> spelling list \<times> memo \<times> error option
     \<Rightarrow> spelling list \<times> memo \<times> error option" where
  "branchStep target components =
     (\<lambda>(out, strokes) (ways, m, thrown).
        (case thrown of
           Some e \<Rightarrow> (ways, m, thrown)
         | None \<Rightarrow>
            (let rest = drop (length out) target;
                 (restWays, m', thrown') = findSpellingsGenerator rest components m
             in (ways @ map (\<lambda>restWay. (out, strokes) # restWay) restWays, m', thrown'))))"

section \<open>The search with an explicit recursion budget\<close>

text \<open>
  The same generator with the depth of the recursion counted: \<open>None\<close> is a run that
  needs a deeper recursion than the budget allows. The loop over the chord list takes the
  recursive call as a parameter.
\<close>

fun branchLoopFuel ::
  "(string \<Rightarrow> memo \<Rightarrow> (spelling list \<times> memo \<times> error option) option)
     \<Rightarrow> string \<Rightarrow> chord list \<Rightarrow> spelling list \<times> memo \<times> error option
     \<Rightarrow> (spelling list \<times> memo \<times> error option) option" where
  "branchLoopFuel recur target [] acc = Some acc"
| "branchLoopFuel recur target ((out, strokes) # cs) (ways, m, thrown) =
     (case thrown of
        Some e \<Rightarrow> Some (ways, m, thrown)
      | None \<Rightarrow>
         (case recur (drop (length out) target) m of
            None \<Rightarrow> None
          | Some (restWays, m', thrown') \<Rightarrow>
              branchLoopFuel recur target cs
                (ways @ map (\<lambda>restWay. (out, strokes) # restWay) restWays, m', thrown')))"

fun findSpellingsFuel ::
  "nat \<Rightarrow> string \<Rightarrow> components \<Rightarrow> memo \<Rightarrow> (spelling list \<times> memo \<times> error option) option" where
  "findSpellingsFuel 0 target components memo = None"
| "findSpellingsFuel (Suc depth) target components memo =
     (if target = [] then Some ([[]], memo([] \<mapsto> [[]]), None)
      else if inMemo target memo then
        (case memo target of
           Some ways \<Rightarrow> Some (ways, memo, None)
         | None \<Rightarrow> Some ([], memo, Some TypeError))
      else
        (case branchLoopFuel (\<lambda>rest m. findSpellingsFuel depth rest components m) target
                (getPrefixChords target components) ([], memo, None) of
           None \<Rightarrow> None
         | Some (ways, memo', thrown) \<Rightarrow>
            (case thrown of
               None \<Rightarrow> Some (ways, memo'(target \<mapsto> ways), None)
             | Some e \<Rightarrow> Some (ways, memo', Some e))))"

section \<open>Job Scheduler\<close>

text \<open>
  The messages the worker posts: \<^verbatim>\<open>{type: "chunk", id, spellings, ways}\<close>,
  \<^verbatim>\<open>{type: "resultDone", id, total}\<close> and \<^verbatim>\<open>{type: "error", id, message}\<close>. The text of an
  error message is the thrown error's own; the model carries the error.

  Two names of the source are constants of HOL: the job's \<^verbatim>\<open>id\<close> is \<open>jobId\<close> below, and
  the counter \<^verbatim>\<open>total\<close> is \<open>totalN\<close>. \<^verbatim>\<open>maxEntries\<close> is \<open>None\<close> when it is undefined; the
  request interface makes it a positive integer, the model allows any integer.
\<close>

datatype message =
    Chunk int "string list" "Strokes list list"
  | ResultDone int nat
  | ErrorMessage int error

definition YIELD_EVERY :: nat where
  "YIELD_EVERY = 5"

text \<open>\<^verbatim>\<open>xs.join(sep)\<close>\<close>

fun joinWith :: "string \<Rightarrow> string list \<Rightarrow> string" where
  "joinWith sep [] = []"
| "joinWith sep [x] = x"
| "joinWith sep (x # y # ys) = x @ sep @ joinWith sep (y # ys)"

text \<open>\<^verbatim>\<open>way.map(([, s]) => chordRepr(s)).join(" / ")\<close> and \<^verbatim>\<open>way.map(([, s]) => s)\<close>\<close>

definition displayOf :: "spelling \<Rightarrow> string" where
  "displayOf way = joinWith '' / '' (map (\<lambda>(out, s). chordRepr s) way)"

definition strokesOf :: "spelling \<Rightarrow> Strokes list" where
  "strokesOf way = map (\<lambda>(out, s). s) way"

text \<open>The callback \<^verbatim>\<open>startJob\<close> hands to \<^verbatim>\<open>runJob\<close>; its second argument here is the
  value of the global \<^verbatim>\<open>currentJobId\<close> when it is called.\<close>

definition onChunk ::
  "int \<Rightarrow> int option \<Rightarrow> string list \<Rightarrow> Strokes list list \<Rightarrow> message list" where
  "onChunk jobId currentJobId display ways =
     (if currentJobId = Some jobId then [Chunk jobId display ways] else [])"

text \<open>The messages of one batch: the loop \<^verbatim>\<open>for (const way of batch)\<close> of \<^verbatim>\<open>runJob\<close>.\<close>

definition chunksOf :: "int \<Rightarrow> int option \<Rightarrow> spelling list \<Rightarrow> message list" where
  "chunksOf jobId current batch =
     concat (map (\<lambda>way. onChunk jobId current [displayOf way] [strokesOf way]) batch)"

text \<open>\<^verbatim>\<open>maxEntries !== undefined && total >= maxEntries\<close>\<close>

definition capReached :: "int option \<Rightarrow> nat \<Rightarrow> bool" where
  "capReached maxEntries totalN =
     (case maxEntries of None \<Rightarrow> False | Some k \<Rightarrow> k \<le> int totalN)"

text \<open>
  The generator object \<^verbatim>\<open>gen\<close> that \<^verbatim>\<open>runJob\<close> drives: the spellings it has still to yield
  and the error it throws after them, if any. \<^verbatim>\<open>gen.next()\<close> yields the next spelling,
  throws, or reports \<^verbatim>\<open>done\<close>.
\<close>

type_synonym gen = "spelling list \<times> error option"

datatype nextResult = Yielded spelling | Thrown error | IsDone

fun genNext :: "gen \<Rightarrow> nextResult \<times> gen" where
  "genNext (way # ways, thrown) = (Yielded way, (ways, thrown))"
| "genNext ([], Some e) = (Thrown e, ([], None))"
| "genNext ([], None) = (IsDone, ([], None))"

text \<open>
  The inner \<^verbatim>\<open>for (let i = 0; i < YIELD_EVERY; i++)\<close> loop; the first argument counts the
  turns that are left. The result is the batch, the generator, \<^verbatim>\<open>total\<close> and
  \<^verbatim>\<open>generatorDone\<close>, or the error \<^verbatim>\<open>gen.next()\<close> threw.
\<close>

fun collectBatch ::
  "nat \<Rightarrow> int option \<Rightarrow> gen \<Rightarrow> spelling list \<Rightarrow> nat
     \<Rightarrow> error + (spelling list \<times> gen \<times> nat \<times> bool)" where
  "collectBatch 0 maxEntries gen batch totalN = Inr (batch, gen, totalN, False)"
| "collectBatch (Suc turns) maxEntries gen batch totalN =
     (if capReached maxEntries totalN then Inr (batch, gen, totalN, False)
      else
        (case genNext gen of
           (Thrown e, gen') \<Rightarrow> Inl e
         | (IsDone, gen') \<Rightarrow> Inr (batch, gen', totalN, True)
         | (Yielded way, gen') \<Rightarrow> collectBatch turns maxEntries gen' (batch @ [way]) (totalN + 1)))"

lemma collectBatch_consumes:
  "collectBatch turns maxEntries gen batch totalN = Inr (batch', gen', totalN', False) \<Longrightarrow>
   \<not> capReached maxEntries totalN' \<Longrightarrow>
   length (fst gen') + turns = length (fst gen)"
proof (induction turns arbitrary: gen batch totalN)
  case 0
  then show ?case by simp
next
  case (Suc turns)
  obtain ways thrown where gen: "gen = (ways, thrown)" by (cases gen) auto
  show ?case
  proof (cases "capReached maxEntries totalN")
    case True
    with Suc.prems show ?thesis by simp
  next
    case False
    show ?thesis
    proof (cases ways)
      case Nil
      with Suc.prems False gen show ?thesis by (cases thrown) auto
    next
      case (Cons way rest)
      with Suc.prems False gen
      have "collectBatch turns maxEntries (rest, thrown) (batch @ [way]) (totalN + 1)
              = Inr (batch', gen', totalN', False)"
        by simp
      from Suc.IH [OF this Suc.prems(2)] gen Cons show ?thesis by simp
    qed
  qed
qed

text \<open>How the asynchronous body of \<^verbatim>\<open>runJob\<close> ends.\<close>

datatype jobEnd = Completed | Failed | Superseded

text \<open>
  The worker is single-threaded: between two awaits the job runs without interruption,
  and \<^verbatim>\<open>currentJobId\<close> is written only by the message handler and by the rejection
  handler of a failed load, which run between two such runs. The environment of a job is
  therefore the value \<open>currentJobId n\<close> that the global variable has during the job's
  \<open>n\<close>-th uninterrupted run (run 0 is the one \<^verbatim>\<open>runJob\<close> itself starts; the
  \<^verbatim>\<open>await\<close> of the zero-delay timer separates run \<open>n\<close> from run \<open>n + 1\<close>). The rejection
  handler that posts the error message runs in the microtask right after the run that
  threw, under the same value. Every posted message is logged with the number of the run
  that posted it.

  \<open>runLoop\<close> is the \<^verbatim>\<open>while (true)\<close> loop of \<^verbatim>\<open>runJob\<close> from run \<open>n\<close> on, together with
  the \<^verbatim>\<open>catch\<close> of the asynchronous body. An error leaves the loop before the batch of
  its run is handed to \<^verbatim>\<open>onChunk\<close>. The hand-over to \<^verbatim>\<open>pendingJob\<close> and the flag
  \<^verbatim>\<open>jobRunning\<close> do not change what this job posts; they are left to the end state
  \<open>Superseded\<close>. A job whose table cannot be loaded never reaches \<^verbatim>\<open>runJob\<close>.
\<close>

function runLoop ::
  "int \<Rightarrow> int option \<Rightarrow> (nat \<Rightarrow> int option) \<Rightarrow> nat \<Rightarrow> gen \<Rightarrow> nat
     \<Rightarrow> (nat \<times> message) list \<times> jobEnd" where
  "runLoop jobId maxEntries currentJobId n gen totalN =
     (case collectBatch YIELD_EVERY maxEntries gen [] totalN of
        Inl err \<Rightarrow>
          (if currentJobId n = Some jobId then [(n, ErrorMessage jobId err)] else [], Failed)
      | Inr (batch, gen', totalN', generatorDone) \<Rightarrow>
          (let chunks = chunksOf jobId (currentJobId n) batch
           in if generatorDone \<or> capReached maxEntries totalN' then
                (map (Pair n)
                   (chunks @
                    (if currentJobId n = Some jobId then [ResultDone jobId totalN'] else [])),
                 Completed)
              else if currentJobId (Suc n) \<noteq> Some jobId then (map (Pair n) chunks, Superseded)
              else
                (let (later, ending) = runLoop jobId maxEntries currentJobId (Suc n) gen' totalN'
                 in (map (Pair n) chunks @ later, ending))))"
  by pat_completeness auto
termination
proof (relation "measure (\<lambda>(jobId, maxEntries, currentJobId, n, gen, totalN). length (fst gen))")
  show "wf (measure (\<lambda>(jobId, maxEntries, currentJobId, n, gen, totalN). length (fst gen)))"
    by simp
next
  fix jobId :: int and maxEntries currentJobId and n :: nat and gen :: gen and totalN :: nat
    and x2 batch y gen' ya totalN' generatorDone chunks
  assume "collectBatch YIELD_EVERY maxEntries gen [] totalN = Inr x2"
    and "(batch, y) = x2" and "(gen', ya) = y" and "(totalN', generatorDone) = ya"
    and "\<not> (generatorDone \<or> capReached maxEntries totalN')"
  then have "collectBatch YIELD_EVERY maxEntries gen [] totalN = Inr (batch, gen', totalN', False)"
    and "\<not> capReached maxEntries totalN'"
    by auto
  then have "length (fst gen') + YIELD_EVERY = length (fst gen)"
    by (rule collectBatch_consumes)
  then show "((jobId, maxEntries, currentJobId, Suc n, gen', totalN'),
              (jobId, maxEntries, currentJobId, n, gen, totalN))
        \<in> measure (\<lambda>(jobId, maxEntries, currentJobId, n, gen, totalN). length (fst gen))"
    by (simp add: YIELD_EVERY_def)
qed

declare runLoop.simps [simp del]

definition runJob ::
  "int \<Rightarrow> ChordData \<Rightarrow> string \<Rightarrow> int option \<Rightarrow> (nat \<Rightarrow> int option)
     \<Rightarrow> (nat \<times> message) list \<times> jobEnd" where
  "runJob jobId data target maxEntries currentJobId =
     (let components = buildComponents data;
          (ways, memo, thrown) = findSpellingsGenerator target components Map.empty
      in runLoop jobId maxEntries currentJobId 0 (ways, thrown) 0)"

section \<open>The worker around the jobs\<close>

text \<open>One uninterrupted run of the loop of \<^verbatim>\<open>runJob\<close>, from the top of \<^verbatim>\<open>while (true)\<close> to the
  \<^verbatim>\<open>await\<close> or the end of the job: what it posts, and either how the job ends or what it
  resumes with.\<close>

definition runOnce ::
  "int \<Rightarrow> int option \<Rightarrow> int option \<Rightarrow> gen \<Rightarrow> nat
     \<Rightarrow> message list \<times> (jobEnd + gen \<times> nat)" where
  "runOnce jobId maxEntries current gen totalN =
     (case collectBatch YIELD_EVERY maxEntries gen [] totalN of
        Inl err \<Rightarrow> (if current = Some jobId then [ErrorMessage jobId err] else [], Inl Failed)
      | Inr (batch, gen', totalN', generatorDone) \<Rightarrow>
          (let chunks = chunksOf jobId current batch
           in if generatorDone \<or> capReached maxEntries totalN' then
                (chunks @ (if current = Some jobId then [ResultDone jobId totalN'] else []),
                 Inl Completed)
              else (chunks, Inr (gen', totalN'))))"

text \<open>
  The request of a \<^verbatim>\<open>compute\<close> message, and the state of the worker: its global variables
  \<^verbatim>\<open>currentJobId\<close>, \<^verbatim>\<open>jobRunning\<close>, \<^verbatim>\<open>pendingJob\<close> and \<^verbatim>\<open>cache\<close> (the fields carry a \<open>w\<close>),
  the calls of \<^verbatim>\<open>startJob\<close> that wait for their table to load (each with the caller: the
  message handler, which attaches a \<^verbatim>\<open>catch\<close>, or the hand-over in \<^verbatim>\<open>runJob\<close>, which does
  not), the jobs that wait for their timer, and the messages posted so far.
\<close>

record request =
  reqId :: int
  reqVersion :: string
  reqTarget :: string
  reqMaxEntries :: "int option"

datatype caller = Handler | HandOver

record worker =
  wCurrentJobId :: "int option"
  wJobRunning :: bool
  wPendingJob :: "request option"
  wCache :: "string \<rightharpoonup> ChordData"
  wLoading :: "(request \<times> caller) list"
  wWaiting :: "(int \<times> int option \<times> gen \<times> nat) list"
  wPosted :: "message list"

definition initialWorker :: worker where
  "initialWorker =
     \<lparr>wCurrentJobId = None, wJobRunning = False, wPendingJob = None, wCache = Map.empty,
      wLoading = [], wWaiting = [], wPosted = []\<rparr>"

text \<open>\<^verbatim>\<open>cache[version]\<close>, tested by \<^verbatim>\<open>if (!data)\<close>: the cache is a plain object too, so for a
  version that names an inherited property the value is truthy and has none of the five
  tables.\<close>

definition cacheGet :: "(string \<rightharpoonup> ChordData) \<Rightarrow> string \<Rightarrow> ChordData option" where
  "cacheGet cache version =
     (case cache version of
        Some data \<Rightarrow> Some data
      | None \<Rightarrow>
          if version \<in> set objectPrototypeKeys
          then Some \<lparr>initials = None, vowels = None, finals = None, suffix = None, suffixes = None\<rparr>
          else None)"

text \<open>A run of a job inside the worker; \<^verbatim>\<open>finally\<close> and the \<^verbatim>\<open>catch\<close> of the body reset
  \<^verbatim>\<open>jobRunning\<close> when the job ends.\<close>

definition runBody :: "int \<Rightarrow> int option \<Rightarrow> gen \<Rightarrow> nat \<Rightarrow> worker \<Rightarrow> worker" where
  "runBody jobId maxEntries gen totalN w =
     (case runOnce jobId maxEntries (wCurrentJobId w) gen totalN of
        (msgs, Inl ending) \<Rightarrow> w\<lparr>wPosted := wPosted w @ msgs, wJobRunning := False\<rparr>
      | (msgs, Inr (gen', totalN')) \<Rightarrow>
          w\<lparr>wPosted := wPosted w @ msgs,
            wWaiting := wWaiting w @ [(jobId, maxEntries, gen', totalN')]\<rparr>)"

text \<open>\<^verbatim>\<open>runJob\<close> as the worker calls it: up to the first \<^verbatim>\<open>await\<close>.\<close>

definition runJobW :: "request \<Rightarrow> ChordData \<Rightarrow> worker \<Rightarrow> worker" where
  "runJobW r data w =
     (let components = buildComponents data;
          (ways, memo, thrown) = findSpellingsGenerator (reqTarget r) components Map.empty
      in runBody (reqId r) (reqMaxEntries r) (ways, thrown) 0 (w\<lparr>wJobRunning := True\<rparr>))"

text \<open>\<^verbatim>\<open>startJob\<close> up to its \<^verbatim>\<open>await\<close>: with the table cached it runs on into \<^verbatim>\<open>runJob\<close>.\<close>

definition startJob :: "request \<Rightarrow> caller \<Rightarrow> worker \<Rightarrow> worker" where
  "startJob r caller w =
     (case cacheGet (wCache w) (reqVersion r) of
        Some data \<Rightarrow> runJobW r data w
      | None \<Rightarrow> w\<lparr>wLoading := wLoading w @ [(r, caller)]\<rparr>)"

text \<open>
  The load of the \<open>n\<close>-th waiting \<^verbatim>\<open>startJob\<close> ends. With the table, \<^verbatim>\<open>startJob\<close> caches it and
  calls \<^verbatim>\<open>runJob\<close>. In failure, \<^verbatim>\<open>startJob\<close> throws: the \<^verbatim>\<open>catch\<close> of the message handler
  resets \<^verbatim>\<open>currentJobId\<close> and posts the error; a call from the hand-over has no handler.
\<close>

definition loadDone :: "nat \<Rightarrow> ChordData option \<Rightarrow> worker \<Rightarrow> worker" where
  "loadDone n result w =
     (if n < length (wLoading w) then
        (let (r, caller) = wLoading w ! n;
             w1 = w\<lparr>wLoading := take n (wLoading w) @ drop (Suc n) (wLoading w)\<rparr>
         in case result of
              Some data \<Rightarrow> runJobW r data (w1\<lparr>wCache := (wCache w1)(reqVersion r \<mapsto> data)\<rparr>)
            | None \<Rightarrow>
               (case caller of
                  Handler \<Rightarrow>
                    w1\<lparr>wCurrentJobId := None,
                       wPosted := wPosted w1 @ [ErrorMessage (reqId r) LoadError]\<rparr>
                | HandOver \<Rightarrow> w1))
      else w)"

text \<open>The timer of the \<open>n\<close>-th waiting job fires: the job resumes after its \<^verbatim>\<open>await\<close>.\<close>

definition timerFired :: "nat \<Rightarrow> worker \<Rightarrow> worker" where
  "timerFired n w =
     (if n < length (wWaiting w) then
        (let (jobId, maxEntries, gen, totalN) = wWaiting w ! n;
             w1 = w\<lparr>wWaiting := take n (wWaiting w) @ drop (Suc n) (wWaiting w)\<rparr>
         in if wCurrentJobId w1 \<noteq> Some jobId then
              (let next = wPendingJob w1;
                   w2 = w1\<lparr>wPendingJob := None\<rparr>;
                   w3 = (case next of None \<Rightarrow> w2 | Some r \<Rightarrow> startJob r HandOver w2)
               in w3\<lparr>wJobRunning := False\<rparr>)
            else runBody jobId maxEntries gen totalN w1)
      else w)"

text \<open>\<^verbatim>\<open>self.onmessage\<close>\<close>

definition onmessage :: "string \<Rightarrow> request \<Rightarrow> worker \<Rightarrow> worker" where
  "onmessage type r w =
     (if type \<noteq> ''compute'' then w
      else
        (let w1 = w\<lparr>wCurrentJobId := Some (reqId r), wPendingJob := Some r\<rparr>
         in if \<not> wJobRunning w1 then startJob r Handler (w1\<lparr>wPendingJob := None\<rparr>)
            else w1))"

text \<open>The worker runs one event at a time, to completion.\<close>

datatype event = Message string request | LoadDone nat "ChordData option" | TimerFired nat

fun step :: "event \<Rightarrow> worker \<Rightarrow> worker" where
  "step (Message type r) w = onmessage type r w"
| "step (LoadDone n result) w = loadDone n result w"
| "step (TimerFired n) w = timerFired n w"

definition runWorker :: "event list \<Rightarrow> worker" where
  "runWorker events = fold step events initialWorker"

text \<open>Two requests for the same target and the same version, which is not cached.\<close>

definition request1 :: request where
  "request1 = \<lparr>reqId = 1, reqVersion = ''v1'', reqTarget = ''ta'', reqMaxEntries = None\<rparr>"

definition request2 :: request where
  "request2 = \<lparr>reqId = 2, reqVersion = ''v1'', reqTarget = ''ta'', reqMaxEntries = None\<rparr>"

section \<open>Spec-side notions\<close>

text \<open>A spelling spells a target when its outputs, concatenated in order, are the target.\<close>

definition spells :: "string \<Rightarrow> spelling \<Rightarrow> bool" where
  "spells target way = (concat (map fst way) = target)"

text \<open>A memo is sound when every spelling it stores under a key spells that key. The empty
  memo a job starts from is sound.\<close>

definition memoSound :: "memo \<Rightarrow> bool" where
  "memoSound memo = (\<forall>t ways. memo t = Some ways \<longrightarrow> (\<forall>way \<in> set ways. spells t way))"

text \<open>Removing the leading marker \<^verbatim>\<open>-\<close> of a final identifier, as the spec words it.\<close>

definition stripMarker :: "string \<Rightarrow> string" where
  "stripMarker f = (case f of [] \<Rightarrow> [] | c # r \<Rightarrow> if c = CHR ''-'' then r else f)"

text \<open>An entry list with \<^verbatim>\<open>("", "")\<close> prepended if no entry with the empty identifier
  exists, as the spec words it.\<close>

definition addEmpty :: "entries \<Rightarrow> entries" where
  "addEmpty items = (if [] \<in> fst ` set items then items else ([], []) # items)"

text \<open>The suffix input: the first field name if it is present and non-empty, otherwise
  the second.\<close>

definition suffixSource :: "ChordData \<Rightarrow> entries option" where
  "suffixSource data =
     (if suffix data \<noteq> None \<and> suffix data \<noteq> Some [] then suffix data else suffixes data)"

text \<open>A later memo keeps an earlier one when every entry of the earlier one for a non-empty
  key is still there, unchanged. (The entry for \<^verbatim>\<open>""\<close> is rewritten by every base case and
  never read.)\<close>

definition memoKeeps :: "memo \<Rightarrow> memo \<Rightarrow> bool" where
  "memoKeeps m1 m2 = (\<forall>t. t \<noteq> [] \<longrightarrow> m1 t \<noteq> None \<longrightarrow> m2 t = m1 t)"

text \<open>What a search may change in the memo: entries for non-empty keys that were absent, of
  a length up to a bound.\<close>

definition memoAdds :: "nat \<Rightarrow> memo \<Rightarrow> memo \<Rightarrow> bool" where
  "memoAdds n m m' = (\<forall>t. t \<noteq> [] \<longrightarrow> m' t \<noteq> m t \<longrightarrow> m t = None \<and> length t \<le> n)"

text \<open>
  The search as the spec describes it, without the memo: the empty target has the empty
  spelling; otherwise, for each chord of the Prefix Matcher in its order, every spelling of
  the rest with the chord in front.
\<close>

function allSpellings :: "string \<Rightarrow> components \<Rightarrow> spelling list" where
  "allSpellings target components =
     (if target = [] then [[]]
      else concat (map (\<lambda>(out, strokes).
                          map (\<lambda>restWay. (out, strokes) # restWay)
                            (allSpellings (drop (length out) target) components))
                     (getPrefixChords target components)))"
  by pat_completeness auto
termination
  by (relation "measure (\<lambda>(target, components). length target)")
     (auto dest: getPrefixChords_shorter)

declare allSpellings.simps [simp del]

text \<open>The spellings one chord of the list contributes.\<close>

definition branchWays :: "string \<Rightarrow> components \<Rightarrow> chord \<Rightarrow> spelling list" where
  "branchWays target components =
     (\<lambda>(out, strokes). map (\<lambda>restWay. (out, strokes) # restWay)
                          (allSpellings (drop (length out) target) components))"

text \<open>A memo is exact when every entry for a non-empty key is the list of all spellings of
  that key.\<close>

definition memoExact :: "components \<Rightarrow> memo \<Rightarrow> bool" where
  "memoExact components memo =
     (\<forall>t ways. t \<noteq> [] \<longrightarrow> memo t = Some ways \<longrightarrow> ways = allSpellings t components)"

text \<open>Tables with two chords for the same output, for runs of more than one batch.\<close>

definition exampleData2 :: ChordData where
  "exampleData2 =
     \<lparr>initials = Some [(''A'', ''a'')], vowels = Some [(''E'', ''a'')],
      finals = None, suffix = None, suffixes = None\<rparr>"

text \<open>The component tables of the spec's example.\<close>

definition exampleData :: ChordData where
  "exampleData =
     \<lparr>initials = Some [(''T'', ''t'')], vowels = Some [(''A'', ''a'')],
      finals = Some [], suffix = None, suffixes = Some []\<rparr>"

section \<open>Unfolding the generator\<close>

lemma findSpellingsGenerator_unfold:
  "findSpellingsGenerator target components memo =
     (if target = [] then ([[]], memo([] \<mapsto> [[]]), None)
      else if inMemo target memo then
        (case memo target of
           Some ways \<Rightarrow> (ways, memo, None)
         | None \<Rightarrow> ([], memo, Some TypeError))
      else
        (case fold (branchStep target components) (getPrefixChords target components)
                ([], memo, None) of
           (ways, memo', None) \<Rightarrow> (ways, memo'(target \<mapsto> ways), None)
         | (ways, memo', Some e) \<Rightarrow> (ways, memo', Some e)))"
  by (subst findSpellingsGenerator.simps) (simp add: branchStep_def Let_def split: prod.splits)

lemma branchStep_thrown [simp]:
  "branchStep target components c (ways, m, Some e) = (ways, m, Some e)"
  by (simp add: branchStep_def split: prod.splits)

lemma branchStep_run:
  assumes "findSpellingsGenerator (drop (length out) target) components m = (restWays, m', e)"
  shows "branchStep target components (out, strokes) (ways, m, None) =
           (ways @ map (\<lambda>restWay. (out, strokes) # restWay) restWays, m', e)"
  using assms by (simp add: branchStep_def)

lemma fold_branchStep_thrown [simp]:
  "fold (branchStep target components) cs (ways, m, Some e) = (ways, m, Some e)"
  by (induction cs) simp_all

lemma findSpellingsGenerator_empty:
  "findSpellingsGenerator [] components memo = ([[]], memo([] \<mapsto> [[]]), None)"
  by (subst findSpellingsGenerator_unfold) simp

lemma findSpellingsGenerator_hit:
  "target \<noteq> [] \<Longrightarrow> memo target = Some ways \<Longrightarrow>
     findSpellingsGenerator target components memo = (ways, memo, None)"
  by (subst findSpellingsGenerator_unfold) (simp add: inMemo_def)

lemma findSpellingsGenerator_inherited:
  "target \<noteq> [] \<Longrightarrow> memo target = None \<Longrightarrow> target \<in> set objectPrototypeKeys \<Longrightarrow>
     findSpellingsGenerator target components memo = ([], memo, Some TypeError)"
  by (subst findSpellingsGenerator_unfold) (simp add: inMemo_def)

lemma findSpellingsGenerator_search:
  "target \<noteq> [] \<Longrightarrow> \<not> inMemo target memo \<Longrightarrow>
   fold (branchStep target components) (getPrefixChords target components) ([], memo, None)
     = (ways, memo', thrown) \<Longrightarrow>
   findSpellingsGenerator target components memo =
     (ways, (case thrown of None \<Rightarrow> memo'(target \<mapsto> ways) | Some e \<Rightarrow> memo'), thrown)"
  by (subst findSpellingsGenerator_unfold) (simp split: option.splits)

section \<open>Every yielded spelling spells the target\<close>

lemma spells_Cons:
  assumes "(out, strokes) \<in> set (getPrefixChords target components)"
    and "spells (drop (length out) target) restWay"
  shows "spells target ((out, strokes) # restWay)"
proof -
  from assms(1) have "take (length out) target = out"
    by (auto simp: getPrefixChords_set isPrefixChord_def startsWith_def)
  then have "out @ drop (length out) target = target"
    by (metis append_take_drop_id)
  with assms(2) show ?thesis by (simp add: spells_def)
qed

lemma findSpellingsGenerator_sound:
  "memoSound memo \<Longrightarrow> findSpellingsGenerator target components memo = (ways, memo', e) \<Longrightarrow>
     (\<forall>way \<in> set ways. spells target way) \<and> memoSound memo'"
proof (induction "length target" arbitrary: target memo ways memo' e rule: less_induct)
  case less
  have loop: "(\<forall>way \<in> set ws'. spells target way) \<and> memoSound m'"
    if "set cs \<subseteq> set (getPrefixChords target components)"
      and "\<forall>way \<in> set ws. spells target way" and "memoSound m"
      and "fold (branchStep target components) cs (ws, m, thr) = (ws', m', thr')"
    for cs ws m thr ws' m' thr'
    using that
  proof (induction cs arbitrary: ws m thr)
    case Nil
    then show ?case by simp
  next
    case (Cons c cs)
    obtain out strokes where c: "c = (out, strokes)" by (cases c) auto
    show ?case
    proof (cases thr)
      case (Some err)
      with Cons.prems show ?thesis by simp
    next
      case None
      obtain rw m1 e1 where run:
        "findSpellingsGenerator (drop (length out) target) components m = (rw, m1, e1)"
        by (cases "findSpellingsGenerator (drop (length out) target) components m") auto
      from Cons.prems(1) c have mem: "(out, strokes) \<in> set (getPrefixChords target components)"
        by simp
      then have "length (drop (length out) target) < length target"
        by (rule getPrefixChords_shorter)
      from less.hyps [OF this Cons.prems(3) run]
      have rw: "\<forall>way \<in> set rw. spells (drop (length out) target) way" and m1: "memoSound m1"
        by simp_all
      have a: "\<forall>way \<in> set (ws @ map (\<lambda>restWay. (out, strokes) # restWay) rw). spells target way"
        using Cons.prems(2) rw spells_Cons [OF mem] by auto
      have b: "fold (branchStep target components) cs
          (ws @ map (\<lambda>restWay. (out, strokes) # restWay) rw, m1, e1) = (ws', m', thr')"
        using Cons.prems(4) None c branchStep_run [OF run] by simp
      have "set cs \<subseteq> set (getPrefixChords target components)"
        using Cons.prems(1) by simp
      from Cons.IH [OF this a m1 b] show ?thesis .
    qed
  qed
  show ?case
  proof (cases "target = []")
    case True
    with less.prems show ?thesis
      by (auto simp: findSpellingsGenerator_empty memoSound_def spells_def split: if_splits)
  next
    case nonempty: False
    show ?thesis
    proof (cases "inMemo target memo")
      case True
      show ?thesis
      proof (cases "memo target")
        case None
        with True nonempty less.prems show ?thesis
          by (simp add: inMemo_def findSpellingsGenerator_inherited)
      next
        case (Some ws)
        with nonempty less.prems show ?thesis
          by (auto simp: findSpellingsGenerator_hit memoSound_def)
      qed
    next
      case False
      obtain ws1 m1 thr1 where f:
        "fold (branchStep target components) (getPrefixChords target components)
           ([], memo, None) = (ws1, m1, thr1)"
        by (cases "fold (branchStep target components) (getPrefixChords target components)
           ([], memo, None)") auto
      from loop [OF subset_refl _ less.prems(1) f]
      have ws1: "\<forall>way \<in> set ws1. spells target way" and m1: "memoSound m1" by simp_all
      from less.prems(2) findSpellingsGenerator_search [OF nonempty False f]
      have "ways = ws1 \<and> (memo' = m1 \<or> memo' = m1(target \<mapsto> ws1))"
        by (auto split: option.splits)
      with ws1 m1 show ?thesis by (auto simp: memoSound_def split: if_splits)
    qed
  qed
qed

lemma exampleData_components:
  "buildComponents exampleData =
     ([([], []), (''T'', ''t'')], [([], []), (''A'', ''a'')], [([], [])], [([], [])])"
  by code_simp

lemma example_ta_run:
  "fst (findSpellingsGenerator ''ta'' (buildComponents exampleData) Map.empty) =
     [[(''ta'', (''T'', ''A'', [], []))],
      [(''t'', (''T'', [], [], [])), (''a'', ([], ''A'', [], []))]]"
  by code_simp

text \<open>
  C1. Started from a sound memo (the empty memo of a job in particular), the generator
  yields only spellings whose outputs, concatenated in order, are exactly the target. This
  holds for the spellings yielded before an error as well.
\<close>

theorem spellings_concat_to_target:
  assumes "memoSound memo"
    and "way \<in> set (fst (findSpellingsGenerator target components memo))"
  shows "concat (map fst way) = target"
proof -
  obtain ways memo' e where run: "findSpellingsGenerator target components memo = (ways, memo', e)"
    by (cases "findSpellingsGenerator target components memo") auto
  from findSpellingsGenerator_sound [OF assms(1) run] assms(2) run
  show ?thesis by (simp add: spells_def)
qed

theorem spellings_concat_to_target_witness:
  "memoSound Map.empty
   \<and> [(''t'', (''T'', [], [], [])), (''a'', ([], ''A'', [], []))]
       \<in> set (fst (findSpellingsGenerator ''ta'' (buildComponents exampleData) Map.empty))
   \<and> concat (map fst [(''t'', (''T'', [], [], [])), (''a'', ([], ''A'', [], []))]) = ''ta''"
  using spellings_concat_to_target
    [of Map.empty "[(''t'', (''T'', [], [], [])), (''a'', ([], ''A'', [], []))]" "''ta''"
        "buildComponents exampleData"]
  by (simp add: memoSound_def example_ta_run)

section \<open>The spec's example\<close>

text \<open>
  C2, as stated: for the example tables and the target \<^verbatim>\<open>ta\<close> the search yields exactly the
  one spelling \<^verbatim>\<open>[("ta", ["T","A","",""])]\<close>. It does not: the chord with only the initial
  \<^verbatim>\<open>T\<close> and the chord with only the vowel \<^verbatim>\<open>A\<close> are enumerated too.
\<close>

theorem example_ta_not_single:
  "fst (findSpellingsGenerator ''ta'' (buildComponents exampleData) Map.empty)
     \<noteq> [[(''ta'', (''T'', ''A'', [], []))]]"
  by (simp add: example_ta_run)

text \<open>
  C2, amended: the search yields exactly two spellings, first the single chord
  \<^verbatim>\<open>[("ta", ["T","A","",""])]\<close>, then the two chords
  \<^verbatim>\<open>[("t", ["T","","",""]), ("a", ["","A","",""])]\<close>, and ends without an error.
\<close>

theorem example_ta_spellings:
  "fst (findSpellingsGenerator ''ta'' (buildComponents exampleData) Map.empty) =
     [[(''ta'', (''T'', ''A'', [], []))],
      [(''t'', (''T'', [], [], [])), (''a'', ([], ''A'', [], []))]]
   \<and> snd (snd (findSpellingsGenerator ''ta'' (buildComponents exampleData) Map.empty)) = None"
  by (rule conjI, rule example_ta_run) code_simp

section \<open>Prefix Matcher\<close>

lemma insertBy_insort_key:
  "insertBy byLengthDesc x xs = insort_key (\<lambda>c. - int (length (fst c))) x xs"
  by (induction xs) (auto simp: byLengthDesc_def split: prod.splits)

lemma sortBy_sort_key:
  "sortBy byLengthDesc xs = sort_key (\<lambda>c. - int (length (fst c))) xs"
  by (induction xs) (simp_all add: sortBy_def insertBy_insort_key)

lemma isPrefixChord_iff:
  "isPrefixChord target c \<longleftrightarrow> fst c \<noteq> [] \<and> (\<exists>rest. target = fst c @ rest)"
proof -
  obtain out strokes where c: "c = (out, strokes)" by (cases c) auto
  have "take (length out) target = out \<longleftrightarrow> (\<exists>rest. target = out @ rest)"
    by (metis append_eq_conv_conj append_take_drop_id)
  with c show ?thesis by (simp add: isPrefixChord_def startsWith_def)
qed

text \<open>
  C3. The Prefix Matcher returns exactly the enumerated chords whose output is non-empty
  and a prefix of the target (as a multiset: each as often as the enumerator yields it),
  sorted by output length descending, and among the outputs of any one length in the
  enumerator's order.
\<close>

theorem getPrefixChords_spec:
  "mset (getPrefixChords target components) =
     mset (filter (\<lambda>c. fst c \<noteq> [] \<and> (\<exists>rest. target = fst c @ rest))
             (allChordOutputs components))
   \<and> sorted_wrt (\<lambda>a b. length (fst a) \<ge> length (fst b)) (getPrefixChords target components)
   \<and> (\<forall>n. filter (\<lambda>c. length (fst c) = n) (getPrefixChords target components) =
           filter (\<lambda>c. length (fst c) = n)
             (filter (\<lambda>c. fst c \<noteq> [] \<and> (\<exists>rest. target = fst c @ rest))
                (allChordOutputs components)))"
proof -
  let ?key = "\<lambda>c::chord. - int (length (fst c))"
  let ?cands = "filter (isPrefixChord target) (allChordOutputs components)"
  have cands: "?cands =
      filter (\<lambda>c. fst c \<noteq> [] \<and> (\<exists>rest. target = fst c @ rest)) (allChordOutputs components)"
    by (rule filter_cong) (simp_all add: isPrefixChord_iff)
  have eq: "getPrefixChords target components = sort_key ?key ?cands"
    by (simp add: getPrefixChords_def sortBy_sort_key)
  have "sorted (map ?key (sort_key ?key ?cands))"
    by (rule sorted_sort_key)
  then have sorted: "sorted_wrt (\<lambda>a b. length (fst a) \<ge> length (fst b)) (sort_key ?key ?cands)"
    by (simp add: sorted_map)
  have stable: "filter (\<lambda>c. length (fst c) = n) (sort_key ?key ?cands) =
      filter (\<lambda>c. length (fst c) = n) ?cands" for n
    using sort_key_stable [of ?key "- int n" ?cands] by simp
  show ?thesis
    unfolding eq using sorted stable by (simp add: cands)
qed

section \<open>Chord display\<close>

lemma replaceBars_no_bar: "CHR ''|'' \<notin> set (replaceBars raw)"
  by (auto simp: replaceBars_def)

lemma replaceBars_emptyChordSign: "replaceBars emptyChordSign = emptyChordSign"
  by (simp add: replaceBars_def emptyChordSign_def)

text \<open>
  C9. A chord with neither an initial nor a vowel identifier is rendered as its final
  identifier, marker kept, followed by the suffix identifier; any other chord as the four
  identifiers with the leading marker of the final identifier removed. Every \<^verbatim>\<open>|\<close> is
  replaced by \<^verbatim>\<open>&\<close>, so none is left. The chord of four empty identifiers is rendered as
  the placeholder alone, which is the literal of the worker's source (the three characters
  U+00E2, U+02C6, U+2026, in UTF-8), and the placeholder stands in for no other chord.
\<close>

theorem chordRepr_spec:
  "(i = [] \<and> v = [] \<longrightarrow>
      chordRepr (i, v, f, s) =
        (if f @ s = [] then [CHR 0xC3, CHR 0xA2, CHR 0xCB, CHR 0x86, CHR 0xE2, CHR 0x80, CHR 0xA6]
         else replaceBars (f @ s)))
   \<and> (i \<noteq> [] \<or> v \<noteq> [] \<longrightarrow>
      chordRepr (i, v, f, s) = replaceBars (i @ v @ stripMarker f @ s))
   \<and> CHR ''|'' \<notin> set (chordRepr (i, v, f, s))
   \<and> chordRepr ([], [], [], []) = [CHR 0xC3, CHR 0xA2, CHR 0xCB, CHR 0x86, CHR 0xE2, CHR 0x80, CHR 0xA6]"
  apply (intro conjI impI)
  subgoal
    by (cases f) (auto simp: startsWith_def replaceBars_emptyChordSign [unfolded emptyChordSign_def]
          emptyChordSign_def)
  subgoal by (cases f) (auto simp: startsWith_def stripMarker_def Let_def)
  subgoal by (simp add: replaceBars_no_bar Let_def)
  subgoal by (simp add: replaceBars_emptyChordSign [unfolded emptyChordSign_def] emptyChordSign_def)
  done

theorem chordRepr_spec_witness:
  "chordRepr ([], [], ''-F|G'', ''S'') = ''-F&GS''
   \<and> chordRepr (''T'', [], ''-F|G'', ''S'') = ''TF&GS''
   \<and> chordRepr ([], [], [], []) = [CHR 0xC3, CHR 0xA2, CHR 0xCB, CHR 0x86, CHR 0xE2, CHR 0x80, CHR 0xA6]"
  using chordRepr_spec [of "[]" "[]" "''-F|G''" "''S''"]
        chordRepr_spec [of "''T''" "[]" "''-F|G''" "''S''"]
  by (simp add: replaceBars_def stripMarker_def)

section \<open>Component Table Builder\<close>

lemma hasEmptyKey_iff: "hasEmptyKey items \<longleftrightarrow> [] \<in> fst ` set items"
  by (induction items) (auto simp: hasEmptyKey_def)

lemma withEmpty_addEmpty: "withEmpty m = addEmpty (entriesOf m)"
  by (simp add: withEmpty_def addEmpty_def hasEmptyKey_iff Let_def)

lemma objectEntries_split:
  "objectEntries props =
     sort_key (\<lambda>e. decimalValue (fst e)) (filter (\<lambda>e. isArrayIndex (fst e)) props)
     @ filter (\<lambda>e. \<not> isArrayIndex (fst e)) props"
  by (simp add: objectEntries_def case_prod_unfold)

lemma objectEntries_mset: "mset (objectEntries props) = mset props"
  by (simp add: objectEntries_split)

lemma objectEntries_others:
  "filter (\<lambda>e. \<not> isArrayIndex (fst e)) (objectEntries props) =
     filter (\<lambda>e. \<not> isArrayIndex (fst e)) props"
proof -
  have "filter (\<lambda>e. \<not> isArrayIndex (fst e))
          (sort_key (\<lambda>e. decimalValue (fst e)) (filter (\<lambda>e. isArrayIndex (fst e)) props)) = []"
    by (simp add: filter_empty_conv)
  then show ?thesis by (simp add: objectEntries_split)
qed

lemma objectEntries_indices:
  "filter (\<lambda>e. isArrayIndex (fst e)) (objectEntries props) =
     sort_key (\<lambda>e. decimalValue (fst e)) (filter (\<lambda>e. isArrayIndex (fst e)) props)"
proof -
  have "filter (\<lambda>e. isArrayIndex (fst e))
          (sort_key (\<lambda>e. decimalValue (fst e)) (filter (\<lambda>e. isArrayIndex (fst e)) props)) =
        sort_key (\<lambda>e. decimalValue (fst e)) (filter (\<lambda>e. isArrayIndex (fst e)) props)"
    by (simp add: filter_id_conv)
  then show ?thesis by (simp add: objectEntries_split)
qed

lemma map_const_replicate: "(\<And>x. x \<in> set xs \<Longrightarrow> f x = c) \<Longrightarrow> map f xs = replicate (length xs) c"
  by (induction xs) auto

lemma objectEntries_indices_first:
  "map (\<lambda>e. isArrayIndex (fst e)) (objectEntries props) =
     replicate (length (filter (\<lambda>e. isArrayIndex (fst e)) props)) True
     @ replicate (length (filter (\<lambda>e. \<not> isArrayIndex (fst e)) props)) False"
proof -
  have "map (\<lambda>e. isArrayIndex (fst e))
          (sort_key (\<lambda>e. decimalValue (fst e)) (filter (\<lambda>e. isArrayIndex (fst e)) props)) =
        replicate (length (sort_key (\<lambda>e. decimalValue (fst e))
          (filter (\<lambda>e. isArrayIndex (fst e)) props))) True"
    by (rule map_const_replicate) simp
  moreover have "map (\<lambda>e. isArrayIndex (fst e)) (filter (\<lambda>e. \<not> isArrayIndex (fst e)) props) =
        replicate (length (filter (\<lambda>e. \<not> isArrayIndex (fst e)) props)) False"
    by (rule map_const_replicate) simp
  ultimately show ?thesis by (simp add: objectEntries_split)
qed

lemma objectEntries_no_index:
  assumes "\<forall>e \<in> set props. \<not> isArrayIndex (fst e)"
  shows "objectEntries props = props"
proof -
  from assms have "filter (\<lambda>e. isArrayIndex (fst e)) props = []"
    by (simp add: filter_empty_conv)
  moreover from assms have "filter (\<lambda>e. \<not> isArrayIndex (fst e)) props = props"
    by (simp add: filter_id_conv)
  ultimately show ?thesis by (simp add: objectEntries_split)
qed

lemma example_not_index: "\<not> isArrayIndex ''T''"
  by code_simp

text \<open>
  C7, as stated: each list is the mapping's entries in insertion order, with \<^verbatim>\<open>("", "")\<close>
  prepended if needed, so that every list contains the identifier \<^verbatim>\<open>""\<close> mapped to the
  fragment \<^verbatim>\<open>""\<close>. For the mapping \<^verbatim>\<open>{"b": "x", "1": "y", "": "z"}\<close> neither holds:
  \<^verbatim>\<open>Object.entries\<close> puts the array index \<^verbatim>\<open>1\<close> first, and the builder, which only looks at the
  identifiers, leaves the fragment \<^verbatim>\<open>z\<close> of the empty identifier as it is.
\<close>

theorem buildComponents_keeps_fragment:
  "fst (buildComponents \<lparr>initials = Some [(''b'', ''x''), (''1'', ''y''), ([], ''z'')],
                          vowels = None, finals = None, suffix = None, suffixes = None\<rparr>)
     = [(''1'', ''y''), (''b'', ''x''), ([], ''z'')]
   \<and> fst (buildComponents \<lparr>initials = Some [(''b'', ''x''), (''1'', ''y''), ([], ''z'')],
                          vowels = None, finals = None, suffix = None, suffixes = None\<rparr>)
     \<noteq> [(''b'', ''x''), (''1'', ''y''), ([], ''z'')]
   \<and> ([], []) \<notin> set (fst (buildComponents
         \<lparr>initials = Some [(''b'', ''x''), (''1'', ''y''), ([], ''z'')],
          vowels = None, finals = None, suffix = None, suffixes = None\<rparr>))"
  by code_simp

text \<open>
  C7, amended: each list is the entries of its mapping in the order of \<^verbatim>\<open>Object.entries\<close>,
  with \<^verbatim>\<open>("", "")\<close> prepended when no entry has the empty identifier (for the suffixes, the
  mapping is \<^verbatim>\<open>suffix\<close> if present and non-empty, otherwise \<^verbatim>\<open>suffixes\<close>). The order of
  \<^verbatim>\<open>Object.entries\<close> has the same entries as the mapping, those whose identifier is an
  array index first, in ascending numeric order, then the others in insertion order; it
  is the insertion order when no identifier is an array index. So every list has an entry
  with the identifier \<^verbatim>\<open>""\<close>; its fragment is the one the mapping gives, and \<^verbatim>\<open>""\<close> when the
  entry was prepended.
\<close>

theorem buildComponents_lists:
  "buildComponents data =
     (addEmpty (entriesOf (initials data)), addEmpty (entriesOf (vowels data)),
      addEmpty (entriesOf (finals data)), addEmpty (entriesOf (suffixSource data)))
   \<and> entriesOf None = [] \<and> entriesOf (Some props) = objectEntries props
   \<and> mset (objectEntries props) = mset props
   \<and> map (\<lambda>e. isArrayIndex (fst e)) (objectEntries props) =
       replicate (length (filter (\<lambda>e. isArrayIndex (fst e)) props)) True
       @ replicate (length (filter (\<lambda>e. \<not> isArrayIndex (fst e)) props)) False
   \<and> sorted (map (\<lambda>e. decimalValue (fst e))
        (filter (\<lambda>e. isArrayIndex (fst e)) (objectEntries props)))
   \<and> filter (\<lambda>e. \<not> isArrayIndex (fst e)) (objectEntries props) =
       filter (\<lambda>e. \<not> isArrayIndex (fst e)) props
   \<and> ((\<forall>e \<in> set props. \<not> isArrayIndex (fst e)) \<longrightarrow> objectEntries props = props)
   \<and> [] \<in> fst ` set (addEmpty items)
   \<and> map_of (addEmpty items) [] = (if [] \<in> fst ` set items then map_of items [] else Some [])"
proof (intro conjI impI)
  show "buildComponents data =
     (addEmpty (entriesOf (initials data)), addEmpty (entriesOf (vowels data)),
      addEmpty (entriesOf (finals data)), addEmpty (entriesOf (suffixSource data)))"
    by (cases "suffix data")
       (auto simp: buildComponents_def withEmpty_addEmpty addEmpty_def hasEmptyKey_iff
          suffixSource_def Let_def)
  show "entriesOf None = []"
    by (simp add: entriesOf_def objectEntries_def)
  show "entriesOf (Some props) = objectEntries props"
    by (simp add: entriesOf_def)
  show "mset (objectEntries props) = mset props"
    by (rule objectEntries_mset)
  show "map (\<lambda>e. isArrayIndex (fst e)) (objectEntries props) =
       replicate (length (filter (\<lambda>e. isArrayIndex (fst e)) props)) True
       @ replicate (length (filter (\<lambda>e. \<not> isArrayIndex (fst e)) props)) False"
    by (rule objectEntries_indices_first)
  show "sorted (map (\<lambda>e. decimalValue (fst e))
        (filter (\<lambda>e. isArrayIndex (fst e)) (objectEntries props)))"
    unfolding objectEntries_indices by (rule sorted_sort_key)
  show "filter (\<lambda>e. \<not> isArrayIndex (fst e)) (objectEntries props) =
       filter (\<lambda>e. \<not> isArrayIndex (fst e)) props"
    by (rule objectEntries_others)
  show "objectEntries props = props" if "\<forall>e \<in> set props. \<not> isArrayIndex (fst e)"
    using that by (rule objectEntries_no_index)
  show "[] \<in> fst ` set (addEmpty items)"
    by (auto simp: addEmpty_def)
  show "map_of (addEmpty items) [] = (if [] \<in> fst ` set items then map_of items [] else Some [])"
    by (simp add: addEmpty_def)
qed

theorem buildComponents_lists_witness:
  "\<not> isArrayIndex ''T''
   \<and> objectEntries [(''T'', ''t'')] = [(''T'', ''t'')]
   \<and> buildComponents exampleData =
       (addEmpty [(''T'', ''t'')], addEmpty [(''A'', ''a'')], addEmpty [], addEmpty [])"
proof -
  note inst = buildComponents_lists [of exampleData "[(''T'', ''t'')]" "[]"]
  have T: "\<forall>e \<in> set [(''T'', ''t'')]. \<not> isArrayIndex (fst e)"
    by (simp add: example_not_index)
  with inst have "objectEntries [(''T'', ''t'')] = [(''T'', ''t'')]" by blast
  moreover from inst have "buildComponents exampleData =
      (addEmpty (entriesOf (initials exampleData)), addEmpty (entriesOf (vowels exampleData)),
       addEmpty (entriesOf (finals exampleData)), addEmpty (entriesOf (suffixSource exampleData)))"
    by blast
  moreover have "entriesOf (initials exampleData) = [(''T'', ''t'')]"
    by code_simp
  moreover have "entriesOf (vowels exampleData) = [(''A'', ''a'')]"
    by code_simp
  moreover have "entriesOf (finals exampleData) = []"
    by code_simp
  moreover have "entriesOf (suffixSource exampleData) = []"
    by code_simp
  ultimately show ?thesis using example_not_index by simp
qed

section \<open>Termination of the search\<close>

lemma branchLoopFuel_fold:
  assumes "\<And>out strokes m. (out, strokes) \<in> set cs \<Longrightarrow>
      recur (drop (length out) target) m =
        Some (findSpellingsGenerator (drop (length out) target) components m)"
  shows "branchLoopFuel recur target cs acc = Some (fold (branchStep target components) cs acc)"
  using assms
proof (induction cs arbitrary: acc)
  case Nil
  show ?case by simp
next
  case (Cons c cs)
  obtain out strokes where c: "c = (out, strokes)" by (cases c) auto
  obtain ways m thrown where acc: "acc = (ways, m, thrown)" by (cases acc) auto
  show ?case
  proof (cases thrown)
    case (Some e)
    with c acc show ?thesis by simp
  next
    case None
    obtain rw m1 e1 where run:
      "findSpellingsGenerator (drop (length out) target) components m = (rw, m1, e1)"
      by (cases "findSpellingsGenerator (drop (length out) target) components m") auto
    have later: "recur (drop (length out') target) m' =
        Some (findSpellingsGenerator (drop (length out') target) components m')"
      if "(out', strokes') \<in> set cs" for out' strokes' m'
      using Cons.prems [of out' strokes' m'] that by simp
    have "recur (drop (length out) target) m = Some (rw, m1, e1)"
      using Cons.prems [of out strokes m] c run by simp
    moreover have "branchLoopFuel recur target cs
        (ways @ map (\<lambda>restWay. (out, strokes) # restWay) rw, m1, e1) =
      Some (fold (branchStep target components) cs
        (ways @ map (\<lambda>restWay. (out, strokes) # restWay) rw, m1, e1))"
      by (rule Cons.IH) (rule later)
    ultimately show ?thesis
      using c acc None branchStep_run [OF run] by simp
  qed
qed

lemma findSpellingsFuel_enough:
  "length target < depth \<Longrightarrow>
     findSpellingsFuel depth target components memo =
       Some (findSpellingsGenerator target components memo)"
proof (induction depth arbitrary: target memo)
  case 0
  then show ?case by simp
next
  case (Suc depth)
  show ?case
  proof (cases "target = [] \<or> inMemo target memo")
    case True
    then show ?thesis
      by (subst findSpellingsGenerator_unfold) (auto split: option.splits)
  next
    case False
    have "branchLoopFuel (\<lambda>rest m. findSpellingsFuel depth rest components m) target
            (getPrefixChords target components) ([], memo, None) =
          Some (fold (branchStep target components) (getPrefixChords target components)
            ([], memo, None))"
    proof (rule branchLoopFuel_fold)
      fix out strokes m
      assume "(out, strokes) \<in> set (getPrefixChords target components)"
      then have "length (drop (length out) target) < length target"
        by (rule getPrefixChords_shorter)
      with Suc.prems have "length (drop (length out) target) < depth" by simp
      then show "findSpellingsFuel depth (drop (length out) target) components m =
          Some (findSpellingsGenerator (drop (length out) target) components m)"
        by (rule Suc.IH)
    qed
    with False show ?thesis
      by (subst findSpellingsGenerator_unfold) (auto split: option.splits prod.splits)
  qed
qed

lemma length_allChordOutputs:
  "length (allChordOutputs (I, V, F, S)) = length I * length V * length F * length S"
  by (simp add: length_concat comp_def case_prod_beta sum_list_triv)

lemma length_insertBy: "length (insertBy cmp x xs) = Suc (length xs)"
  by (induction xs) auto

lemma length_sortBy: "length (sortBy cmp xs) = length xs"
  by (induction xs) (auto simp: sortBy_def length_insertBy)

text \<open>
  C10. Every chord the Prefix Matcher supplies has a non-empty output, so the recursive
  call is on a strictly shorter suffix; there are at most as many branch chords as there
  are combinations of candidates; and the search ends: a recursion budget of one more than
  the length of the target is enough, and the result is the finite list of spellings
  (with the memo and the error, if any) of \<open>findSpellingsGenerator\<close>.
\<close>

theorem search_terminates:
  "(\<forall>c \<in> set (getPrefixChords target (I, V, F, S)).
       fst c \<noteq> [] \<and> length (drop (length (fst c)) target) < length target)
   \<and> length (getPrefixChords target (I, V, F, S)) \<le> length I * length V * length F * length S
   \<and> findSpellingsFuel (Suc (length target)) target (I, V, F, S) memo =
       Some (findSpellingsGenerator target (I, V, F, S) memo)"
proof (intro conjI ballI)
  fix c assume c: "c \<in> set (getPrefixChords target (I, V, F, S))"
  then show "fst c \<noteq> []"
    by (auto simp: getPrefixChords_set isPrefixChord_def)
  from c show "length (drop (length (fst c)) target) < length target"
    using getPrefixChords_shorter [of "fst c" "snd c"] by simp
next
  have "length (getPrefixChords target (I, V, F, S)) \<le> length (allChordOutputs (I, V, F, S))"
    unfolding getPrefixChords_def length_sortBy by (rule length_filter_le)
  then show "length (getPrefixChords target (I, V, F, S))
      \<le> length I * length V * length F * length S"
    by (simp only: length_allChordOutputs)
next
  show "findSpellingsFuel (Suc (length target)) target (I, V, F, S) memo =
       Some (findSpellingsGenerator target (I, V, F, S) memo)"
    by (rule findSpellingsFuel_enough) simp
qed


theorem search_terminates_witness:
  "(''t'', (''T'', [], [], []))
     \<in> set (getPrefixChords ''ta''
          ([([], []), (''T'', ''t'')], [([], []), (''A'', ''a'')], [([], [])], [([], [])]))
   \<and> length (drop (length ''t'') ''ta'') < length ''ta''
   \<and> findSpellingsFuel 3 ''ta''
        ([([], []), (''T'', ''t'')], [([], []), (''A'', ''a'')], [([], [])], [([], [])])
        Map.empty \<noteq> None"
  using search_terminates
    [of "''ta''" "[([], []), (''T'', ''t'')]" "[([], []), (''A'', ''a'')]" "[([], [])]"
        "[([], [])]" Map.empty]
  by (simp add: getPrefixChords_set isPrefixChord_def startsWith_def literalPart_def
        isLiteral_def numeral_3_eq_3)

section \<open>Replaying the memo\<close>

lemma memoAdds_refl: "memoAdds n m m"
  by (simp add: memoAdds_def)

lemma memoAdds_trans:
  "memoAdds n m m1 \<Longrightarrow> memoAdds n m1 m2 \<Longrightarrow> memoAdds n m m2"
  unfolding memoAdds_def by metis

lemma memoAdds_mono: "memoAdds n m m' \<Longrightarrow> n \<le> k \<Longrightarrow> memoAdds k m m'"
  unfolding memoAdds_def by (meson le_trans)

lemma memoAdds_keeps: "memoAdds n m m' \<Longrightarrow> memoKeeps m m'"
  unfolding memoAdds_def memoKeeps_def by metis

lemma findSpellingsGenerator_adds:
  "findSpellingsGenerator target components memo = (ways, memo', e) \<Longrightarrow>
     memoAdds (length target) memo memo'"
proof (induction "length target" arbitrary: target memo ways memo' e rule: less_induct)
  case less
  have loop: "memoAdds (length target - 1) m m'"
    if "set cs \<subseteq> set (getPrefixChords target components)"
      and "fold (branchStep target components) cs (ws, m, thr) = (ws', m', thr')"
    for cs ws m thr ws' m' thr'
    using that
  proof (induction cs arbitrary: ws m thr)
    case Nil
    then show ?case by (simp add: memoAdds_refl)
  next
    case (Cons c cs)
    obtain out strokes where c: "c = (out, strokes)" by (cases c) auto
    show ?case
    proof (cases thr)
      case (Some err)
      with Cons.prems show ?thesis by (simp add: memoAdds_refl)
    next
      case None
      obtain rw m1 e1 where run:
        "findSpellingsGenerator (drop (length out) target) components m = (rw, m1, e1)"
        by (cases "findSpellingsGenerator (drop (length out) target) components m") auto
      from Cons.prems(1) c have mem: "(out, strokes) \<in> set (getPrefixChords target components)"
        by simp
      then have shorter: "length (drop (length out) target) < length target"
        by (rule getPrefixChords_shorter)
      from less.hyps [OF shorter run]
      have "memoAdds (length (drop (length out) target)) m m1" .
      then have step: "memoAdds (length target - 1) m m1"
        by (rule memoAdds_mono) (use shorter in simp)
      have b: "fold (branchStep target components) cs
          (ws @ map (\<lambda>restWay. (out, strokes) # restWay) rw, m1, e1) = (ws', m', thr')"
        using Cons.prems(2) None c branchStep_run [OF run] by simp
      have "set cs \<subseteq> set (getPrefixChords target components)"
        using Cons.prems(1) by simp
      from Cons.IH [OF this b] have "memoAdds (length target - 1) m1 m'" .
      with step show ?thesis by (rule memoAdds_trans)
    qed
  qed
  show ?case
  proof (cases "target = []")
    case True
    with less.prems show ?thesis
      by (auto simp: findSpellingsGenerator_empty memoAdds_def)
  next
    case nonempty: False
    show ?thesis
    proof (cases "inMemo target memo")
      case True
      show ?thesis
      proof (cases "memo target")
        case None
        with True nonempty less.prems show ?thesis
          by (simp add: inMemo_def findSpellingsGenerator_inherited memoAdds_refl)
      next
        case (Some ws)
        with nonempty less.prems show ?thesis
          by (auto simp: findSpellingsGenerator_hit memoAdds_refl)
      qed
    next
      case False
      obtain ws1 m1 thr1 where f:
        "fold (branchStep target components) (getPrefixChords target components)
           ([], memo, None) = (ws1, m1, thr1)"
        by (cases "fold (branchStep target components) (getPrefixChords target components)
           ([], memo, None)") auto
      from loop [OF subset_refl f] have m1: "memoAdds (length target - 1) memo m1" .
      from False have absent: "memo target = None" by (simp add: inMemo_def)
      from less.prems findSpellingsGenerator_search [OF nonempty False f]
      have "memo' = m1 \<or> memo' = m1(target \<mapsto> ws1)"
        by (auto split: option.splits)
      with m1 absent nonempty show ?thesis
        unfolding memoAdds_def
        by (metis diff_le_self fun_upd_apply le_trans order_refl)
    qed
  qed
qed

lemma findSpellingsGenerator_keeps:
  "memoKeeps memo (fst (snd (findSpellingsGenerator target components memo)))"
proof -
  obtain ways memo' e where run: "findSpellingsGenerator target components memo = (ways, memo', e)"
    by (cases "findSpellingsGenerator target components memo") auto
  from findSpellingsGenerator_adds [OF run] run show ?thesis
    by (simp add: memoAdds_keeps)
qed

lemma memoKeeps_trans: "memoKeeps m1 m2 \<Longrightarrow> memoKeeps m2 m3 \<Longrightarrow> memoKeeps m1 m3"
  unfolding memoKeeps_def by metis

lemma findSpellingsGenerator_stored:
  assumes "target \<noteq> []"
    and "findSpellingsGenerator target components memo = (ways, memo', None)"
  shows "memo' target = Some ways"
proof (cases "inMemo target memo")
  case True
  show ?thesis
  proof (cases "memo target")
    case None
    with True assms show ?thesis
      by (simp add: inMemo_def findSpellingsGenerator_inherited)
  next
    case (Some ws)
    with assms show ?thesis by (simp add: findSpellingsGenerator_hit)
  qed
next
  case False
  obtain ws1 m1 thr1 where f:
    "fold (branchStep target components) (getPrefixChords target components)
       ([], memo, None) = (ws1, m1, thr1)"
    by (cases "fold (branchStep target components) (getPrefixChords target components)
       ([], memo, None)") auto
  from assms findSpellingsGenerator_search [OF assms(1) False f]
  show ?thesis by (auto split: option.splits)
qed

text \<open>
  C8. Once the spellings of \<open>s\<close> have been computed to the end, any later search for \<open>s\<close>
  that shares the memo (every search keeps the entries of the memo, by
  \<open>findSpellingsGenerator_keeps\<close>) yields the same spellings, element for element and in
  the same order; for a non-empty \<open>s\<close> it is a replay that leaves the memo as it is.
\<close>

theorem memo_replay:
  assumes "snd (snd (findSpellingsGenerator s components memo)) = None"
    and "memoKeeps (fst (snd (findSpellingsGenerator s components memo))) memo2"
  shows "fst (findSpellingsGenerator s components memo2) =
           fst (findSpellingsGenerator s components memo)
         \<and> snd (snd (findSpellingsGenerator s components memo2)) = None
         \<and> (s \<noteq> [] \<longrightarrow> fst (snd (findSpellingsGenerator s components memo2)) = memo2)"
proof (cases "s = []")
  case True
  then show ?thesis by (simp add: findSpellingsGenerator_empty)
next
  case False
  obtain ways memo1 where run: "findSpellingsGenerator s components memo = (ways, memo1, None)"
    using assms(1) by (cases "findSpellingsGenerator s components memo") auto
  from findSpellingsGenerator_stored [OF False run] have "memo1 s = Some ways" .
  with assms(2) run False have "memo2 s = Some ways"
    by (simp add: memoKeeps_def)
  with False run show ?thesis by (simp add: findSpellingsGenerator_hit)
qed

lemma example_a_run:
  "snd (snd (findSpellingsGenerator ''a'' (buildComponents exampleData) Map.empty)) = None
   \<and> fst (findSpellingsGenerator ''a'' (buildComponents exampleData) Map.empty)
      = [[(''a'', ([], ''A'', [], []))]]"
  by code_simp

theorem memo_replay_witness:
  "fst (findSpellingsGenerator ''a'' (buildComponents exampleData)
          (fst (snd (findSpellingsGenerator ''ta'' (buildComponents exampleData)
             (fst (snd (findSpellingsGenerator ''a'' (buildComponents exampleData) Map.empty)))))))
     = [[(''a'', ([], ''A'', [], []))]]"
  using memo_replay [of "''a''" "buildComponents exampleData" Map.empty
      "fst (snd (findSpellingsGenerator ''ta'' (buildComponents exampleData)
             (fst (snd (findSpellingsGenerator ''a'' (buildComponents exampleData) Map.empty)))))"]
    findSpellingsGenerator_keeps [of
      "fst (snd (findSpellingsGenerator ''a'' (buildComponents exampleData) Map.empty))"
      "''ta''" "buildComponents exampleData"]
  by (simp add: example_a_run)


section \<open>The memoized search against the search without memo\<close>

lemma allSpellings_empty: "allSpellings [] components = [[]]"
  by (subst allSpellings.simps) simp

lemma allSpellings_nonempty:
  "target \<noteq> [] \<Longrightarrow>
     allSpellings target components =
       concat (map (branchWays target components) (getPrefixChords target components))"
  by (subst allSpellings.simps) (simp add: branchWays_def)

lemma findSpellingsGenerator_exact:
  "memoExact components memo \<Longrightarrow>
   findSpellingsGenerator target components memo = (ways, memo', e) \<Longrightarrow>
     memoExact components memo'
     \<and> (\<exists>r. allSpellings target components = ways @ r)
     \<and> (e = None \<longrightarrow> ways = allSpellings target components)"
proof (induction "length target" arbitrary: target memo ways memo' e rule: less_induct)
  case less
  have loop: "memoExact components m'
      \<and> (\<exists>r. ws @ concat (map (branchWays target components) cs) = ws' @ r)
      \<and> (thr' = None \<longrightarrow> ws' = ws @ concat (map (branchWays target components) cs))"
    if "set cs \<subseteq> set (getPrefixChords target components)"
      and "memoExact components m"
      and "fold (branchStep target components) cs (ws, m, thr) = (ws', m', thr')"
    for cs ws m thr ws' m' thr'
    using that
  proof (induction cs arbitrary: ws m thr)
    case Nil
    then show ?case by simp
  next
    case (Cons c cs)
    obtain out strokes where c: "c = (out, strokes)" by (cases c) auto
    show ?case
    proof (cases thr)
      case (Some err)
      with Cons.prems(3) have "ws' = ws" "m' = m" "thr' = Some err" by simp_all
      with Cons.prems(2) show ?thesis by simp
    next
      case None
      let ?rest = "drop (length out) target"
      obtain rw m1 e1 where run: "findSpellingsGenerator ?rest components m = (rw, m1, e1)"
        by (cases "findSpellingsGenerator ?rest components m") auto
      from Cons.prems(1) c have mem: "(out, strokes) \<in> set (getPrefixChords target components)"
        by simp
      then have "length ?rest < length target"
        by (rule getPrefixChords_shorter)
      note inner = less.hyps [OF this Cons.prems(2) run]
      from inner have m1: "memoExact components m1" by (rule conjunct1)
      from inner obtain r1 where r1: "allSpellings ?rest components = rw @ r1" by blast
      from inner have full: "e1 = None \<longrightarrow> rw = allSpellings ?rest components" by blast
      let ?ws1 = "ws @ map (\<lambda>restWay. (out, strokes) # restWay) rw"
      have b: "fold (branchStep target components) cs (?ws1, m1, e1) = (ws', m', thr')"
        using Cons.prems(3) None c branchStep_run [OF run] by simp
      have sub: "set cs \<subseteq> set (getPrefixChords target components)"
        using Cons.prems(1) by simp
      have bw: "branchWays target components c =
          map (\<lambda>restWay. (out, strokes) # restWay) rw @ map (\<lambda>restWay. (out, strokes) # restWay) r1"
        using r1 c by (simp add: branchWays_def)
      show ?thesis
      proof (cases e1)
        case None
        with full r1 have "r1 = []" by simp
        with bw have "ws @ concat (map (branchWays target components) (c # cs)) =
            ?ws1 @ concat (map (branchWays target components) cs)"
          by simp
        with Cons.IH [OF sub m1 b] show ?thesis by simp
      next
        case (Some err)
        with b have "ws' = ?ws1" "m' = m1" "thr' = Some err" by simp_all
        with m1 bw show ?thesis by simp
      qed
    qed
  qed
  show ?case
  proof (cases "target = []")
    case True
    with less.prems show ?thesis
      by (auto simp: findSpellingsGenerator_empty allSpellings_empty memoExact_def)
  next
    case nonempty: False
    show ?thesis
    proof (cases "inMemo target memo")
      case True
      show ?thesis
      proof (cases "memo target")
        case None
        with True nonempty less.prems show ?thesis
          by (auto simp: inMemo_def findSpellingsGenerator_inherited)
      next
        case (Some ws)
        with nonempty less.prems show ?thesis
          by (auto simp: findSpellingsGenerator_hit memoExact_def)
      qed
    next
      case False
      obtain ws1 m1 thr1 where f:
        "fold (branchStep target components) (getPrefixChords target components)
           ([], memo, None) = (ws1, m1, thr1)"
        by (cases "fold (branchStep target components) (getPrefixChords target components)
           ([], memo, None)") auto
      note outer = loop [OF subset_refl less.prems(1) f, unfolded append_Nil,
          folded allSpellings_nonempty [OF nonempty]]
      from outer have m1: "memoExact components m1" by (rule conjunct1)
      from outer obtain r where pre: "allSpellings target components = ws1 @ r" by blast
      from outer have full: "thr1 = None \<longrightarrow> ws1 = allSpellings target components" by blast
      from less.prems(2) findSpellingsGenerator_search [OF nonempty False f]
      have res: "ways = ws1" "e = thr1"
        "memo' = (case thr1 of None \<Rightarrow> m1(target \<mapsto> ws1) | Some e \<Rightarrow> m1)"
        by auto
      have "memoExact components memo'"
      proof (cases thr1)
        case None
        with res full m1 show ?thesis by (auto simp: memoExact_def)
      next
        case (Some err)
        with res m1 show ?thesis by simp
      qed
      with res pre full show ?thesis by auto
    qed
  qed
qed

lemma memoExact_empty: "memoExact components Map.empty"
  by (simp add: memoExact_def)

section \<open>Runs of a job\<close>

lemma chunksOf_guard: "msg \<in> set (chunksOf jobId current batch) \<Longrightarrow> current = Some jobId"
  by (auto simp: chunksOf_def onChunk_def split: if_splits)

lemma chunksOf_not_done: "ResultDone i t \<notin> set (chunksOf jobId current batch)"
  by (auto simp: chunksOf_def onChunk_def split: if_splits)

lemma runLoop_failed:
  "collectBatch YIELD_EVERY maxEntries gen [] totalN = Inl err \<Longrightarrow>
   runLoop jobId maxEntries currentJobId n gen totalN =
     (if currentJobId n = Some jobId then [(n, ErrorMessage jobId err)] else [], Failed)"
  by (subst runLoop.simps) simp

lemma runLoop_completed:
  "collectBatch YIELD_EVERY maxEntries gen [] totalN = Inr (batch, gen', totalN', generatorDone) \<Longrightarrow>
   generatorDone \<or> capReached maxEntries totalN' \<Longrightarrow>
   runLoop jobId maxEntries currentJobId n gen totalN =
     (map (Pair n) (chunksOf jobId (currentJobId n) batch @
        (if currentJobId n = Some jobId then [ResultDone jobId totalN'] else [])), Completed)"
  by (subst runLoop.simps) (simp add: chunksOf_def)

lemma runLoop_superseded:
  "collectBatch YIELD_EVERY maxEntries gen [] totalN = Inr (batch, gen', totalN', generatorDone) \<Longrightarrow>
   \<not> (generatorDone \<or> capReached maxEntries totalN') \<Longrightarrow>
   currentJobId (Suc n) \<noteq> Some jobId \<Longrightarrow>
   runLoop jobId maxEntries currentJobId n gen totalN =
     (map (Pair n) (chunksOf jobId (currentJobId n) batch), Superseded)"
  by (subst runLoop.simps) (simp add: chunksOf_def)

lemma runLoop_resumed:
  "collectBatch YIELD_EVERY maxEntries gen [] totalN = Inr (batch, gen', totalN', generatorDone) \<Longrightarrow>
   \<not> (generatorDone \<or> capReached maxEntries totalN') \<Longrightarrow>
   currentJobId (Suc n) = Some jobId \<Longrightarrow>
   runLoop jobId maxEntries currentJobId n gen totalN =
     (map (Pair n) (chunksOf jobId (currentJobId n) batch) @
        fst (runLoop jobId maxEntries currentJobId (Suc n) gen' totalN'),
      snd (runLoop jobId maxEntries currentJobId (Suc n) gen' totalN'))"
  by (subst runLoop.simps) (simp add: chunksOf_def split: prod.splits)

lemma runLoop_posts:
  "(k, msg) \<in> set (fst (runLoop jobId maxEntries currentJobId n gen totalN)) \<Longrightarrow>
     n \<le> k \<and> currentJobId k = Some jobId \<and> (\<forall>m. n < m \<and> m \<le> k \<longrightarrow> currentJobId m = Some jobId)"
proof (induction "length (fst gen)" arbitrary: n gen totalN rule: less_induct)
  case less
  show ?case
  proof (cases "collectBatch YIELD_EVERY maxEntries gen [] totalN")
    case (Inl err)
    from less.prems show ?thesis
      by (auto simp: runLoop_failed [OF Inl] split: if_splits)
  next
    case (Inr r)
    obtain batch gen' totalN' generatorDone where r: "r = (batch, gen', totalN', generatorDone)"
      by (cases r) auto
    note cb = Inr [unfolded r]
    show ?thesis
    proof (cases "generatorDone \<or> capReached maxEntries totalN'")
      case True
      from less.prems show ?thesis
        by (auto simp: runLoop_completed [OF cb True] split: if_splits dest: chunksOf_guard)
    next
      case False
      show ?thesis
      proof (cases "currentJobId (Suc n) = Some jobId")
        case superseded: False
        from less.prems show ?thesis
          by (auto simp: runLoop_superseded [where currentJobId = currentJobId and n = n, OF cb False superseded] dest: chunksOf_guard)
      next
        case True
        from cb False have "length (fst gen') + YIELD_EVERY = length (fst gen)"
          by (intro collectBatch_consumes [of YIELD_EVERY maxEntries gen "[]" totalN batch]) auto
        then have shorter: "length (fst gen') < length (fst gen)"
          by (simp add: YIELD_EVERY_def)
        from less.prems
        consider "k = n" "msg \<in> set (chunksOf jobId (currentJobId n) batch)"
          | "(k, msg) \<in> set (fst (runLoop jobId maxEntries currentJobId (Suc n) gen' totalN'))"
          by (auto simp: runLoop_resumed [where currentJobId = currentJobId and n = n, OF cb False True])
        then show ?thesis
        proof cases
          case 1
          then show ?thesis by (auto dest: chunksOf_guard)
        next
          case 2
          from less.hyps [OF shorter 2]
          have "Suc n \<le> k" and "currentJobId k = Some jobId"
            and "\<forall>m. Suc n < m \<and> m \<le> k \<longrightarrow> currentJobId m = Some jobId"
            by simp_all
          with True show ?thesis
            by (metis Suc_leD Suc_lessI)
        qed
      qed
    qed
  qed
qed

text \<open>
  Every message \<^verbatim>\<open>runJob\<close> posts (chunk, \<open>resultDone\<close> or error) is posted in a run during
  which the job's id is the current one. And once the job finds another id current when it
  resumes after a batch (run \<open>s > 0\<close>), it has posted its last message before.
\<close>

lemma runJob_posts_guarded:
  assumes "(k, msg) \<in> set (fst (runJob jobId data target maxEntries currentJobId))"
  shows "currentJobId k = Some jobId \<and> (\<forall>s. 0 < s \<and> currentJobId s \<noteq> Some jobId \<longrightarrow> k < s)"
proof -
  obtain ways memo thrown where
    "findSpellingsGenerator target (buildComponents data) Map.empty = (ways, memo, thrown)"
    by (cases "findSpellingsGenerator target (buildComponents data) Map.empty") auto
  with assms have "(k, msg) \<in> set (fst (runLoop jobId maxEntries currentJobId 0 (ways, thrown) 0))"
    by (simp add: runJob_def)
  from runLoop_posts [OF this] show ?thesis
    by (metis not_le_imp_less)
qed

lemma example_aaa_superseded:
  "runJob 1 exampleData2 ''aaa'' None (\<lambda>n. if n = 0 then Some 1 else Some 2) =
    ([(0, Chunk 1 [''AE / E''] [[(''A'', ''E'', [], []), ([], ''E'', [], [])]]),
      (0, Chunk 1 [''AE / A''] [[(''A'', ''E'', [], []), (''A'', [], [], [])]]),
      (0, Chunk 1 [''E / AE''] [[([], ''E'', [], []), (''A'', ''E'', [], [])]]),
      (0, Chunk 1 [''E / E / E'']
         [[([], ''E'', [], []), ([], ''E'', [], []), ([], ''E'', [], [])]]),
      (0, Chunk 1 [''E / E / A'']
         [[([], ''E'', [], []), ([], ''E'', [], []), (''A'', [], [], [])]])],
     Superseded)"
  by code_simp

lemma runLoop_runOnce:
  "runLoop jobId maxEntries currentJobId n gen totalN =
     (case runOnce jobId maxEntries (currentJobId n) gen totalN of
        (msgs, Inl ending) \<Rightarrow> (map (Pair n) msgs, ending)
      | (msgs, Inr (gen', totalN')) \<Rightarrow>
          if currentJobId (Suc n) \<noteq> Some jobId then (map (Pair n) msgs, Superseded)
          else (map (Pair n) msgs @ fst (runLoop jobId maxEntries currentJobId (Suc n) gen' totalN'),
                snd (runLoop jobId maxEntries currentJobId (Suc n) gen' totalN')))"
  by (subst runLoop.simps)
     (auto simp: runOnce_def Let_def split: sum.splits prod.splits)

text \<open>
  C6. The claim: after a request with another id has arrived, job 1 posts no further chunk
  or terminal message, every emission being guarded by the job's id still being current.
  The posts of \<^verbatim>\<open>runJob\<close> and of the chunk callback of \<^verbatim>\<open>startJob\<close> are guarded
  (\<open>runJob_posts_guarded\<close>); the error the message handler posts when \<^verbatim>\<open>startJob\<close> fails is
  not. Requests 1 and 2 arrive while the table is not cached, so both wait for their load
  and the current id is 2. The load of job 1 then fails: the worker posts the error of
  job 1 and resets \<^verbatim>\<open>currentJobId\<close>. The load of job 2 succeeds, and job 2 posts nothing.
\<close>

theorem load_failure_posts_after_supersession:
  "wCurrentJobId (runWorker [Message ''compute'' request1, Message ''compute'' request2]) = Some 2
   \<and> wPosted (runWorker [Message ''compute'' request1, Message ''compute'' request2]) = []
   \<and> wPosted (runWorker [Message ''compute'' request1, Message ''compute'' request2,
                          LoadDone 0 None]) = [ErrorMessage 1 LoadError]
   \<and> wCurrentJobId (runWorker [Message ''compute'' request1, Message ''compute'' request2,
                          LoadDone 0 None]) = None
   \<and> wPosted (runWorker [Message ''compute'' request1, Message ''compute'' request2,
                          LoadDone 0 None, LoadDone 0 (Some exampleData)])
       = [ErrorMessage 1 LoadError]"
  by code_simp


section \<open>The cap on the number of results\<close>

lemma collectBatch_result:
  "collectBatch turns maxEntries gen batch totalN = Inr (batch', gen', totalN', generatorDone) \<Longrightarrow>
     totalN' + length (fst gen') = totalN + length (fst gen)
     \<and> snd gen' = snd gen
     \<and> (generatorDone \<longrightarrow> fst gen' = [] \<and> snd gen = None)
     \<and> (\<forall>K. maxEntries = Some K \<longrightarrow> int totalN \<le> K \<longrightarrow> int totalN' \<le> K)"
proof (induction turns arbitrary: gen batch totalN)
  case 0
  then show ?case by simp
next
  case (Suc turns)
  obtain ways thrown where gen: "gen = (ways, thrown)" by (cases gen) auto
  show ?case
  proof (cases "capReached maxEntries totalN")
    case True
    with Suc.prems show ?thesis by simp
  next
    case False
    show ?thesis
    proof (cases ways)
      case Nil
      with Suc.prems False gen show ?thesis by (cases thrown) auto
    next
      case (Cons way rest)
      with Suc.prems False gen
      have "collectBatch turns maxEntries (rest, thrown) (batch @ [way]) (totalN + 1)
              = Inr (batch', gen', totalN', generatorDone)"
        by simp
      from Suc.IH [OF this] gen Cons False show ?thesis
        by (auto simp: capReached_def)
    qed
  qed
qed

lemma runLoop_reports:
  assumes "(k, ResultDone i t) \<in> set (fst (runLoop jobId (Some K) currentJobId n gen totalN))"
    and "int totalN \<le> K"
  shows "int t = K \<or> (int t \<le> K \<and> t = totalN + length (fst gen) \<and> snd gen = None)"
  using assms
proof (induction "length (fst gen)" arbitrary: n gen totalN rule: less_induct)
  case less
  show ?case
  proof (cases "collectBatch YIELD_EVERY (Some K) gen [] totalN")
    case (Inl err)
    from less.prems(1) show ?thesis
      by (auto simp: runLoop_failed [OF Inl] split: if_splits)
  next
    case (Inr r)
    obtain batch gen' totalN' generatorDone where r: "r = (batch, gen', totalN', generatorDone)"
      by (cases r) auto
    note cb = Inr [unfolded r]
    from collectBatch_result [OF cb] less.prems(2)
    have sum: "totalN' + length (fst gen') = totalN + length (fst gen)"
      and thr: "snd gen' = snd gen"
      and fin: "generatorDone \<longrightarrow> fst gen' = [] \<and> snd gen = None"
      and le: "int totalN' \<le> K"
      by simp_all
    show ?thesis
    proof (cases "generatorDone \<or> capReached (Some K) totalN'")
      case True
      from less.prems(1) have "t = totalN'"
        by (auto simp: runLoop_completed [OF cb True] chunksOf_not_done split: if_splits)
      with True sum fin le show ?thesis
        by (auto simp: capReached_def)
    next
      case False
      show ?thesis
      proof (cases "currentJobId (Suc n) = Some jobId")
        case superseded: False
        from less.prems(1) show ?thesis
          by (auto simp: runLoop_superseded [where currentJobId = currentJobId and n = n, OF cb False superseded] chunksOf_not_done)
      next
        case True
        from cb False have "length (fst gen') + YIELD_EVERY = length (fst gen)"
          by (intro collectBatch_consumes [of YIELD_EVERY "Some K" gen "[]" totalN batch]) auto
        then have shorter: "length (fst gen') < length (fst gen)"
          by (simp add: YIELD_EVERY_def)
        from less.prems(1)
        have "(k, ResultDone i t) \<in> set (fst (runLoop jobId (Some K) currentJobId (Suc n) gen' totalN'))"
          by (auto simp: runLoop_resumed [where currentJobId = currentJobId and n = n, OF cb False True] chunksOf_not_done)
        from less.hyps [OF shorter this le] sum thr show ?thesis
          by auto
      qed
    qed
  qed
qed

text \<open>
  C5. With \<open>maxEntries = K\<close>, a non-negative integer (the request interface asks for a
  positive one), the total a job reports in \<open>resultDone\<close> is at most \<open>K\<close>, and it is \<open>K\<close>
  exactly if the target has more than \<open>K\<close> spellings: counted as the spellings of the
  search without memo, and counted as the spellings the generator yields.
\<close>

theorem cap_respected:
  assumes "(k, ResultDone i t) \<in> set (fst (runJob jobId data target (Some K) currentJobId))"
    and "0 \<le> K"
  shows "int t \<le> K
     \<and> (K < int (length (allSpellings target (buildComponents data))) \<longrightarrow> int t = K)
     \<and> (K < int (length (fst (findSpellingsGenerator target (buildComponents data) Map.empty)))
          \<longrightarrow> int t = K)"
proof -
  obtain ways memo thrown where run:
    "findSpellingsGenerator target (buildComponents data) Map.empty = (ways, memo, thrown)"
    by (cases "findSpellingsGenerator target (buildComponents data) Map.empty") auto
  from findSpellingsGenerator_exact [OF memoExact_empty run]
  have full: "thrown = None \<longrightarrow> ways = allSpellings target (buildComponents data)" by simp
  from assms(1) run
  have "(k, ResultDone i t) \<in> set (fst (runLoop jobId (Some K) currentJobId 0 (ways, thrown) 0))"
    by (simp add: runJob_def)
  from runLoop_reports [OF this] assms(2)
  have "int t = K \<or> (int t \<le> K \<and> t = length ways \<and> thrown = None)" by simp
  with full run show ?thesis by auto
qed

lemma example_ta_capped:
  "runJob 1 exampleData ''ta'' (Some 1) (\<lambda>n. Some 1) =
     ([(0, Chunk 1 [''TA''] [[(''T'', ''A'', [], [])]]), (0, ResultDone 1 1)], Completed)"
  by code_simp

lemma example_ta_all:
  "allSpellings ''ta'' (buildComponents exampleData) =
     [[(''ta'', (''T'', ''A'', [], []))],
      [(''t'', (''T'', [], [], [])), (''a'', ([], ''A'', [], []))]]"
  by code_simp

theorem cap_respected_witness:
  "(0, ResultDone 1 1) \<in> set (fst (runJob 1 exampleData ''ta'' (Some 1) (\<lambda>n. Some 1)))
   \<and> (0::int) \<le> 1
   \<and> 1 < int (length (allSpellings ''ta'' (buildComponents exampleData)))
   \<and> int 1 = 1"
  using cap_respected [of 0 1 1 1 exampleData "''ta''" 1 "\<lambda>n. Some 1"]
  by (simp add: example_ta_capped example_ta_all)

section \<open>The empty target\<close>

lemma collectBatch_base:
  assumes "case maxEntries of None \<Rightarrow> True | Some K \<Rightarrow> 1 \<le> K"
  shows "\<exists>generatorDone. collectBatch YIELD_EVERY maxEntries ([[]], None) [] 0 =
           Inr ([[]], ([], None), 1, generatorDone)
         \<and> (generatorDone \<or> capReached maxEntries 1)"
proof (cases maxEntries)
  case None
  then show ?thesis
    by (auto simp: YIELD_EVERY_def eval_nat_numeral capReached_def)
next
  case (Some K)
  with assms show ?thesis
    by (cases "K = 1") (auto simp: YIELD_EVERY_def eval_nat_numeral capReached_def)
qed

text \<open>
  C4. For the empty target the search yields exactly one spelling, the empty one, stores
  it in the memo under the key \<^verbatim>\<open>""\<close> and ends without an error; a job for the empty target
  that is still current, with no \<^verbatim>\<open>maxEntries\<close> or a positive one, posts one chunk (the
  empty display string, no strokes) and then \<open>resultDone\<close> with the total 1.
\<close>

theorem empty_target_one_spelling:
  "fst (findSpellingsGenerator [] components memo) = [[]]
   \<and> fst (snd (findSpellingsGenerator [] components memo)) [] = Some [[]]
   \<and> snd (snd (findSpellingsGenerator [] components memo)) = None
   \<and> (currentJobId 0 = Some jobId \<longrightarrow> (case maxEntries of None \<Rightarrow> True | Some K \<Rightarrow> 1 \<le> K) \<longrightarrow>
        runJob jobId data [] maxEntries currentJobId =
          ([(0, Chunk jobId [[]] [[]]), (0, ResultDone jobId 1)], Completed))"
proof (intro conjI impI)
  assume cur: "currentJobId 0 = Some jobId"
    and cap: "case maxEntries of None \<Rightarrow> True | Some K \<Rightarrow> 1 \<le> K"
  from collectBatch_base [OF cap] obtain generatorDone where
    cb: "collectBatch YIELD_EVERY maxEntries ([[]], None) [] 0 =
           Inr ([[]], ([], None), 1, generatorDone)"
    and fin: "generatorDone \<or> capReached maxEntries 1"
    by auto
  from runLoop_completed [OF cb fin, of jobId currentJobId 0] cur
  show "runJob jobId data [] maxEntries currentJobId =
          ([(0, Chunk jobId [[]] [[]]), (0, ResultDone jobId 1)], Completed)"
    by (simp add: runJob_def findSpellingsGenerator_empty chunksOf_def onChunk_def
          displayOf_def strokesOf_def)
qed (simp_all add: findSpellingsGenerator_empty)

theorem empty_target_one_spelling_witness:
  "fst (findSpellingsGenerator [] (buildComponents exampleData) Map.empty) = [[]]
   \<and> runJob 7 exampleData [] (Some 3) (\<lambda>n. Some 7) =
          ([(0, Chunk 7 [[]] [[]]), (0, ResultDone 7 1)], Completed)"
  using empty_target_one_spelling
    [of "buildComponents exampleData" Map.empty "\<lambda>n. Some 7" 7 "Some 3" exampleData]
  by simp


end
